theory Spec2Isabelle
  imports Complex_Main "HOL-Library.Log_Nat"
begin

section \<open>The in-memory balance ledger (src/balance.js)\<close>

text \<open>
  A JavaScript number is an IEEE 754 binary64 value. A finite double is modelled by its
  exact value, a rational, and every operation of the source that rounds is modelled with
  its rounding: \<open>a + b\<close> and \<open>a - b\<close> are the exact sum and difference rounded to the
  nearest double, ties to the even mantissa (\<open>to_double\<close>); \<open>x.toFixed(2)\<close> is defined by
  ECMAScript on the exact value of \<open>x\<close> (for \<open>x < 0\<close> the sign is set aside and \<open>-x\<close> is
  formatted; the digits are those of the integer \<open>n\<close> with \<open>n / 100 - x\<close> closest to zero,
  the larger \<open>n\<close> on a tie); \<open>parseFloat\<close> of these digits is their value rounded to the
  nearest double. An amount passed to the ledger is the exact value of the double passed.
  NaN, the infinities (so, overflow beyond the largest double) and the sign of zero are
  outside this model: negative zero is the number 0.
\<close>

type_synonym uid = int

type_synonym balances = "uid \<rightharpoonup> rat"

text \<open>Round to the nearest integer, a tie to the even one.\<close>

definition round_half_even :: "rat \<Rightarrow> int" where
  "round_half_even y =
     (let f = \<lfloor>y\<rfloor>; d = y - of_int f
      in if d < 1 / 2 then f else if 1 / 2 < d then f + 1 else if even f then f else f + 1)"

text \<open>The binary exponent of a positive number: \<open>2 ^ binade x \<le> x < 2 ^ (binade x + 1)\<close>.\<close>

definition binade :: "rat \<Rightarrow> int" where
  "binade x = (if 1 \<le> x then bitlen \<lfloor>x\<rfloor> - 1 else - bitlen (\<lceil>1 / x\<rceil> - 1))"

text \<open>The exponent of the last of the 53 mantissa bits of a double near \<open>x\<close>; below
  \<open>2 ^ -1022\<close> the doubles are subnormal and the exponent stays at \<open>-1074\<close>.\<close>

definition qexp :: "rat \<Rightarrow> int" where
  "qexp x = max (binade \<bar>x\<bar>) (- 1022) - 52"

text \<open>The spacing of the doubles near \<open>x\<close>.\<close>

definition quantum :: "rat \<Rightarrow> rat" where
  "quantum x = 2 powi qexp x"

text \<open>The double nearest to \<open>x\<close>, ties to even: the result of every arithmetic operation
  and of \<open>parseFloat\<close>.\<close>

definition to_double :: "rat \<Rightarrow> rat" where
  "to_double x = (if x = 0 then 0 else of_int (round_half_even (x / quantum x)) * quantum x)"

text \<open>The value of the digits printed by \<open>x.toFixed(2)\<close>: round half away from zero to two
  decimals.\<close>

definition toFixed2 :: "rat \<Rightarrow> rat" where
  "toFixed2 x =
     (if x < 0 then - (of_int \<lfloor>(- x) * 100 + 1 / 2\<rfloor> / 100)
      else of_int \<lfloor>x * 100 + 1 / 2\<rfloor> / 100)"

text \<open>\<open>parseFloat(x.toFixed(2))\<close>\<close>

definition parseFloat_toFixed2 :: "rat \<Rightarrow> rat" where
  "parseFloat_toFixed2 x = to_double (toFixed2 x)"

text \<open>\<open>const userBalances = {}\<close>\<close>

definition userBalances0 :: balances where
  "userBalances0 = Map.empty"

text \<open>\<open>!userBalances[userId]\<close>: the entry is missing or is zero.\<close>

definition falsy :: "rat option \<Rightarrow> bool" where
  "falsy v = (case v of None \<Rightarrow> True | Some b \<Rightarrow> b = 0)"

text \<open>\<open>return userBalances[userId] || 0\<close>\<close>

definition getBalance :: "balances \<Rightarrow> uid \<Rightarrow> rat" where
  "getBalance ub u = (case ub u of None \<Rightarrow> 0 | Some b \<Rightarrow> if b = 0 then 0 else b)"

text \<open>\<open>if (!userBalances[userId]) userBalances[userId] = 0\<close>, the first statement of both
  \<open>addBalance\<close> and \<open>subtractBalance\<close>.\<close>

definition ensureEntry :: "balances \<Rightarrow> uid \<Rightarrow> balances" where
  "ensureEntry ub u = (if falsy (ub u) then ub(u \<mapsto> 0) else ub)"

text \<open>The returned pair is the function's return value and the store it leaves behind.
  \<open>the (ub1 u)\<close> reads \<open>userBalances[userId]\<close>, an entry that exists after
  \<open>ensureEntry\<close>; the sum is rounded to a double before \<open>toFixed\<close> formats it.\<close>

definition addBalance :: "balances \<Rightarrow> uid \<Rightarrow> rat \<Rightarrow> rat \<times> balances" where
  "addBalance ub u amount =
     (let ub1 = ensureEntry ub u;
          nb = parseFloat_toFixed2 (to_double (the (ub1 u) + amount))
      in (nb, ub1(u \<mapsto> nb)))"

datatype ledger_error = InsufficientFunds

text \<open>The \<open>throw\<close> leaves the store as \<open>ensureEntry\<close> made it.\<close>

definition subtractBalance :: "balances \<Rightarrow> uid \<Rightarrow> rat \<Rightarrow> (ledger_error + rat) \<times> balances" where
  "subtractBalance ub u amount =
     (let ub1 = ensureEntry ub u;
          newBalance = parseFloat_toFixed2 (to_double (the (ub1 u) - amount))
      in if newBalance < 0 then (Inl InsufficientFunds, ub1)
         else (Inr newBalance, ub1(u \<mapsto> newBalance)))"

text \<open>\<open>return balance >= amount\<close>\<close>

definition hasEnoughBalance :: "balances \<Rightarrow> uid \<Rightarrow> rat \<Rightarrow> bool" where
  "hasEnoughBalance ub u amount = (getBalance ub u \<ge> amount)"

text \<open>Sequences of ledger calls, and the store after each call.\<close>

datatype ledger_op = GetBalance uid | AddBalance uid rat | SubtractBalance uid rat

fun apply_op :: "balances \<Rightarrow> ledger_op \<Rightarrow> balances" where
  "apply_op ub (GetBalance u) = ub"
| "apply_op ub (AddBalance u a) = snd (addBalance ub u a)"
| "apply_op ub (SubtractBalance u a) = snd (subtractBalance ub u a)"

fun stores :: "balances \<Rightarrow> ledger_op list \<Rightarrow> balances list" where
  "stores ub [] = []"
| "stores ub (x # xs) = apply_op ub x # stores (apply_op ub x) xs"

fun nonneg_credit :: "ledger_op \<Rightarrow> bool" where
  "nonneg_credit (AddBalance u a) = (0 \<le> a)"
| "nonneg_credit _ = True"


subsection \<open>Rounding to the nearest integer, ties to even\<close>

lemma round_half_even_cases:
  "round_half_even y = \<lfloor>y\<rfloor> \<or> round_half_even y = \<lfloor>y\<rfloor> + 1"
  by (simp add: round_half_even_def Let_def)

lemma round_half_even_error: "\<bar>of_int (round_half_even y) - y\<bar> \<le> 1 / 2"
proof -
  have "of_int \<lfloor>y\<rfloor> \<le> y" "y < of_int \<lfloor>y\<rfloor> + 1" by linarith+
  then show ?thesis
    by (auto simp: round_half_even_def Let_def abs_le_iff)
qed

lemma round_half_even_near:
  assumes "\<bar>y - of_int m\<bar> < 1 / 2"
  shows "round_half_even y = m"
proof -
  have e: "\<bar>of_int (round_half_even y) - y\<bar> \<le> 1 / 2" by (rule round_half_even_error)
  have "\<bar>(of_int (round_half_even y) :: rat) - of_int m\<bar> < 1"
    using assms e by linarith
  then have "\<bar>round_half_even y - m\<bar> < 1"
    by (metis of_int_1 of_int_abs of_int_diff of_int_less_iff)
  then show ?thesis by simp
qed

lemma round_half_even_of_int: "round_half_even (of_int m) = m"
  by (rule round_half_even_near) simp

lemma round_half_even_lower: "of_int a \<le> y \<Longrightarrow> a \<le> round_half_even y"
proof -
  assume "of_int a \<le> y"
  then have "a \<le> \<lfloor>y\<rfloor>" by (simp add: le_floor_iff)
  with round_half_even_cases [of y] show ?thesis by linarith
qed

lemma round_half_even_upper: "y \<le> of_int b \<Longrightarrow> round_half_even y \<le> b"
proof (cases "y = of_int b")
  case True
  then show ?thesis by (simp add: round_half_even_of_int)
next
  case False
  assume "y \<le> of_int b"
  with False have "y < of_int b" by simp
  then have "\<lfloor>y\<rfloor> < b" by (simp add: floor_less_iff)
  with round_half_even_cases [of y] show ?thesis by linarith
qed

lemma round_half_even_minus: "round_half_even (- y) = - round_half_even y"
proof (cases "y = of_int \<lfloor>y\<rfloor>")
  case True
  then obtain m where "y = of_int m" ..
  then have "- y = of_int (- m)" by simp
  then show ?thesis using \<open>y = of_int m\<close> by (simp only: round_half_even_of_int)
next
  case False
  then have lt: "of_int \<lfloor>y\<rfloor> < y" by linarith
  have fm: "\<lfloor>- y\<rfloor> = - \<lfloor>y\<rfloor> - 1"
  proof (rule floor_unique)
    show "of_int (- \<lfloor>y\<rfloor> - 1) \<le> - y" by simp linarith
    show "- y < of_int (- \<lfloor>y\<rfloor> - 1) + 1" using lt by simp
  qed
  let ?d = "y - of_int \<lfloor>y\<rfloor>"
  have d: "0 < ?d" "?d < 1" using lt by linarith+
  have dm: "- y - of_int \<lfloor>- y\<rfloor> = 1 - ?d" by (simp add: fm)
  consider "?d < 1 / 2" | "1 / 2 < ?d" | "?d = 1 / 2" by linarith
  then show ?thesis
  proof cases
    case 1
    then have "1 / 2 < 1 - ?d" by linarith
    with 1 show ?thesis
      unfolding round_half_even_def Let_def dm by (simp add: fm)
  next
    case 2
    then have "1 - ?d < 1 / 2" by linarith
    with 2 show ?thesis
      unfolding round_half_even_def Let_def dm by (simp add: fm)
  next
    case 3
    then have "1 - ?d = 1 / 2" by linarith
    with 3 show ?thesis
      unfolding round_half_even_def Let_def dm by (simp add: fm)
  qed
qed

lemma round_half_even_nonneg: "0 \<le> y \<Longrightarrow> 0 \<le> round_half_even y"
  using round_half_even_lower [of 0 y] by simp


subsection \<open>Binades\<close>

lemma two_powi_le_iff: "(2::rat) powi a \<le> 2 powi b \<longleftrightarrow> a \<le> b"
proof
  assume "(2::rat) powi a \<le> 2 powi b"
  show "a \<le> b"
  proof (rule ccontr)
    assume "\<not> a \<le> b"
    then have "b < a" by simp
    then have "(2::rat) powi b < 2 powi a" by (rule power_int_strict_increasing) simp
    with \<open>(2::rat) powi a \<le> 2 powi b\<close> show False by simp
  qed
next
  assume "a \<le> b"
  then show "(2::rat) powi a \<le> 2 powi b" by (rule power_int_increasing) simp
qed

lemma two_powi_less_iff: "(2::rat) powi a < 2 powi b \<longleftrightarrow> a < b"
  using two_powi_le_iff [of b a] by (simp add: not_le [symmetric])

lemma bitlen_bounds_rat:
  assumes "0 < n"
  shows "(2::rat) powi (bitlen n - 1) \<le> of_int n" and "(of_int n :: rat) + 1 \<le> 2 powi bitlen n"
proof -
  from assms have b1: "1 \<le> bitlen n" by (auto simp: bitlen_alt_def)
  from bitlen_bounds [OF assms] have lo: "2 ^ nat (bitlen n - 1) \<le> n"
    and hi: "n < 2 ^ nat (bitlen n)" by simp_all
  have "(2::rat) powi (bitlen n - 1) = 2 ^ nat (bitlen n - 1)"
    using b1 by (simp add: power_int_nonneg_exp)
  also have "\<dots> = of_int (2 ^ nat (bitlen n - 1))" by simp
  also have "\<dots> \<le> of_int n" using lo by (simp only: of_int_le_iff)
  finally show "(2::rat) powi (bitlen n - 1) \<le> of_int n" .
  from hi have "n + 1 \<le> 2 ^ nat (bitlen n)" by simp
  then have "(of_int (n + 1) :: rat) \<le> of_int (2 ^ nat (bitlen n))" by (simp only: of_int_le_iff)
  also have "\<dots> = 2 powi bitlen n"
    using b1 by (simp add: power_int_nonneg_exp)
  finally show "(of_int n :: rat) + 1 \<le> 2 powi bitlen n" by simp
qed

lemma binade_bounds:
  assumes "0 < x"
  shows "2 powi binade x \<le> x" and "x < 2 powi (binade x + 1)"
proof -
  have "2 powi binade x \<le> x \<and> x < 2 powi (binade x + 1)"
  proof (cases "1 \<le> x")
    case True
    then have n: "0 < \<lfloor>x\<rfloor>" by simp
    have "of_int \<lfloor>x\<rfloor> \<le> x" "x < of_int \<lfloor>x\<rfloor> + 1" by linarith+
    with bitlen_bounds_rat [OF n] True show ?thesis
      by (simp add: binade_def) linarith
  next
    case False
    with assms have inv: "1 < 1 / x" by simp
    then have n: "0 < \<lceil>1 / x\<rceil> - 1" by linarith
    have c: "1 / x \<le> of_int \<lceil>1 / x\<rceil>" "of_int (\<lceil>1 / x\<rceil> - 1) < 1 / x" by linarith+
    let ?b = "bitlen (\<lceil>1 / x\<rceil> - 1)"
    from bitlen_bounds_rat [OF n] c
    have lo: "(2::rat) powi (?b - 1) < 1 / x" and hi: "1 / x \<le> 2 powi ?b"
      by simp_all linarith+
    have p: "(0::rat) < 2 powi ?b" "(0::rat) < 2 powi (?b - 1)" by simp_all
    from hi assms p have "1 / 2 powi ?b \<le> x"
      by (simp add: field_simps)
    then have a: "2 powi (- ?b) \<le> x" by (simp add: power_int_minus_divide)
    from lo assms p have "x < 1 / 2 powi (?b - 1)"
      by (simp add: field_simps)
    then have b: "x < 2 powi (- ?b + 1)"
      by (metis power_int_minus_divide minus_diff_eq uminus_add_conv_diff add.commute)
    from a b False show ?thesis by (simp add: binade_def)
  qed
  then show "2 powi binade x \<le> x" and "x < 2 powi (binade x + 1)" by simp_all
qed

lemma binade_unique:
  assumes "0 < x" and "2 powi e \<le> x" and "x < 2 powi (e + 1)"
  shows "binade x = e"
proof -
  from binade_bounds [OF assms(1)] assms(2,3)
  have "(2::rat) powi binade x < 2 powi (e + 1)" and "(2::rat) powi e < 2 powi (binade x + 1)"
    by linarith+
  then have "binade x < e + 1" and "e < binade x + 1"
    by (simp_all add: two_powi_less_iff)
  then show ?thesis by simp
qed


subsection \<open>Rounding to cents\<close>

lemma toFixed2_zero: "toFixed2 0 = 0"
  by (simp add: toFixed2_def floor_eq_iff)

lemma toFixed2_minus: "toFixed2 (- x) = - toFixed2 x"
proof -
  have z: "\<lfloor>1 / 2 :: rat\<rfloor> = 0" by (simp add: floor_eq_iff)
  consider "x < 0" | "x = 0" | "0 < x" by linarith
  then show ?thesis
    by cases (simp_all add: toFixed2_def z)
qed

lemma toFixed2_error: "\<bar>toFixed2 x - x\<bar> \<le> 1 / 200"
proof -
  have pos: "\<bar>of_int \<lfloor>y * 100 + 1 / 2\<rfloor> / 100 - y\<bar> \<le> 1 / 200" for y :: rat
  proof -
    have "of_int \<lfloor>y * 100 + 1 / 2\<rfloor> \<le> y * 100 + 1 / 2"
      "y * 100 + 1 / 2 < of_int \<lfloor>y * 100 + 1 / 2\<rfloor> + 1" by linarith+
    then show ?thesis by linarith
  qed
  show ?thesis
  proof (cases "x < 0")
    case True
    have "\<bar>toFixed2 x - x\<bar> = \<bar>of_int \<lfloor>(- x) * 100 + 1 / 2\<rfloor> / 100 - (- x)\<bar>"
      using True by (simp add: toFixed2_def abs_if)
    with pos [of "- x"] show ?thesis by simp
  next
    case False
    with pos [of x] show ?thesis by (simp add: toFixed2_def)
  qed
qed

lemma toFixed2_near:
  assumes "\<bar>x - of_int n / 100\<bar> < 1 / 200"
  shows "toFixed2 x = of_int n / 100"
proof -
  have pos: "of_int \<lfloor>y * 100 + 1 / 2\<rfloor> / 100 = (of_int j / 100 :: rat)"
    if "\<bar>y - of_int j / 100\<bar> < 1 / 200" for y :: rat and j
  proof -
    from that have "of_int j \<le> y * 100 + 1 / 2" "y * 100 + 1 / 2 < of_int j + 1"
      by linarith+
    then have "\<lfloor>y * 100 + 1 / 2\<rfloor> = j" by (rule floor_unique)
    then show ?thesis by simp
  qed
  show ?thesis
  proof (cases "x < 0")
    case True
    have "(- x) - of_int (- n) / 100 = - (x - of_int n / 100)" by simp
    with assms have "\<bar>(- x) - of_int (- n) / 100\<bar> < 1 / 200" by (simp only: abs_minus_cancel)
    from pos [OF this] True show ?thesis by (simp add: toFixed2_def)
  next
    case False
    with pos [OF assms] show ?thesis by (simp add: toFixed2_def)
  qed
qed

lemma toFixed2_cents: "toFixed2 (of_int n / 100) = of_int n / 100"
  by (rule toFixed2_near) simp

lemma toFixed2_of_int: "toFixed2 (of_int n) = of_int n"
  using toFixed2_cents [of "100 * n"] by simp

lemma toFixed2_is_cents: "\<exists>n. toFixed2 x = of_int n / 100"
proof (cases "x < 0")
  case True
  then have "toFixed2 x = of_int (- \<lfloor>(- x) * 100 + 1 / 2\<rfloor>) / 100" by (simp add: toFixed2_def)
  then show ?thesis by blast
next
  case False
  then have "toFixed2 x = of_int \<lfloor>x * 100 + 1 / 2\<rfloor> / 100" by (simp add: toFixed2_def)
  then show ?thesis by blast
qed


subsection \<open>Rounding to a double\<close>

lemma quantum_qexp: "quantum x = 2 powi qexp x"
  by (simp add: quantum_def)

lemma quantum_pos: "0 < quantum x"
  by (simp add: quantum_def)

lemma quantum_minus: "quantum (- x) = quantum x"
  by (simp add: quantum_def qexp_def)

lemma qexp_ge: "- 1074 \<le> qexp x"
  by (simp add: qexp_def)

lemma to_double_zero: "to_double 0 = 0"
  by (simp add: to_double_def)

lemma to_double_minus: "to_double (- x) = - to_double x"
  by (simp add: to_double_def quantum_minus round_half_even_minus)

lemma to_double_nonneg: "0 \<le> x \<Longrightarrow> 0 \<le> to_double x"
  using quantum_pos [of x]
  by (simp add: to_double_def round_half_even_nonneg)

lemma to_double_nonpos: "x \<le> 0 \<Longrightarrow> to_double x \<le> 0"
  using to_double_nonneg [of "- x"] by (simp add: to_double_minus)

lemma to_double_error: "\<bar>to_double x - x\<bar> \<le> quantum x / 2"
proof (cases "x = 0")
  case True
  then show ?thesis using quantum_pos [of 0] by (simp add: to_double_def)
next
  case False
  let ?q = "quantum x"
  have q: "0 < ?q" by (rule quantum_pos)
  have "to_double x - x = (of_int (round_half_even (x / ?q)) - x / ?q) * ?q"
    using False q by (simp add: to_double_def field_simps)
  then have "\<bar>to_double x - x\<bar> = \<bar>of_int (round_half_even (x / ?q)) - x / ?q\<bar> * ?q"
    using q by (simp add: abs_mult)
  also have "\<dots> \<le> 1 / 2 * ?q"
    using round_half_even_error [of "x / ?q"] q by (intro mult_right_mono) simp_all
  finally show ?thesis by simp
qed


lemma to_double_scaled:
  assumes "x \<noteq> 0"
  shows "to_double x = of_int (round_half_even (x / 2 powi qexp x)) * 2 powi qexp x"
  using assms by (simp add: to_double_def quantum_qexp)

lemma qexp_pos: "0 < x \<Longrightarrow> qexp x = max (binade x) (- 1022) - 52"
  by (simp add: qexp_def)

text \<open>A positive number is below \<open>2^53\<close> quanta, and a normal one is at least \<open>2^52\<close>.\<close>

lemma below_53_quanta:
  assumes "0 < x"
  shows "x < 2 ^ 53 * 2 powi qexp x"
proof -
  have "binade x + 1 \<le> qexp x + 53" using assms by (simp add: qexp_pos)
  then have "(2::rat) powi (binade x + 1) \<le> 2 powi (qexp x + 53)" by (simp add: two_powi_le_iff)
  also have "\<dots> = 2 ^ 53 * 2 powi qexp x"
    by (simp add: power_int_add)
  finally show ?thesis using binade_bounds(2) [OF assms] by simp
qed

lemma above_52_quanta:
  assumes "0 < x" and "- 1022 \<le> binade x"
  shows "2 ^ 52 * 2 powi qexp x \<le> x"
proof -
  have "qexp x + 52 = binade x" using assms by (simp add: qexp_pos)
  then have "(2::rat) powi binade x = 2 powi (qexp x + 52)" by simp
  also have "\<dots> = 2 ^ 52 * 2 powi qexp x" by (simp add: power_int_add)
  finally show ?thesis using binade_bounds(1) [OF assms(1)] by simp
qed

lemma to_double_representable_less:
  assumes "0 < m" and "m < 2 ^ 53" and "- 1074 \<le> k"
  shows "to_double (of_int m * 2 powi k) = of_int m * 2 powi k"
proof -
  let ?x = "of_int m * 2 powi k :: rat"
  have x: "0 < ?x" using assms(1) by simp
  have "(2::rat) powi binade ?x \<le> ?x" by (rule binade_bounds(1) [OF x])
  also have "?x < 2 ^ 53 * 2 powi k"
    using assms(2) by (simp add: of_int_less_iff [of m "2 ^ 53", where ?'a = rat, simplified])
  also have "2 ^ 53 * 2 powi k = (2::rat) powi (k + 53)" by (simp add: power_int_add)
  finally have "binade ?x < k + 53" by (simp add: two_powi_less_iff)
  with assms(3) have le: "qexp ?x \<le> k" using x by (simp add: qexp_pos)
  define e where "e = qexp ?x"
  define q where "q = (2::rat) powi e"
  define j where "j = nat (k - e)"
  have q: "0 < q" by (simp add: q_def)
  have "(2::rat) powi k = 2 powi (e + int j)" using le by (simp add: j_def e_def)
  also have "\<dots> = q * 2 ^ j" by (simp add: power_int_add q_def)
  finally have k: "(2::rat) powi k = q * 2 ^ j" .
  have xe: "?x = of_int (m * 2 ^ j) * q" by (simp add: k)
  have "?x / q = of_int (m * 2 ^ j)" using q by (simp add: k)
  then have r: "round_half_even (?x / q) = m * 2 ^ j"
    by (simp only: round_half_even_of_int)
  have "to_double ?x = of_int (round_half_even (?x / q)) * q"
    using x unfolding q_def e_def by (rule to_double_scaled [OF less_imp_neq [THEN not_sym]])
  also have "\<dots> = of_int (m * 2 ^ j) * q" by (simp only: r)
  also have "\<dots> = ?x" by (simp only: xe)
  finally show ?thesis .
qed

lemma to_double_representable:
  assumes "0 < m" and "m \<le> 2 ^ 53" and "- 1074 \<le> k"
  shows "to_double (of_int m * 2 powi k) = of_int m * 2 powi k"
proof (cases "m = 2 ^ 53")
  case False
  with assms show ?thesis by (intro to_double_representable_less) simp_all
next
  case True
  have "(of_int m * 2 powi k :: rat) = of_int (2 ^ 52) * 2 powi (k + 1)"
    by (simp add: True power_int_add)
  moreover have "to_double (of_int (2 ^ 52) * 2 powi (k + 1)) = of_int (2 ^ 52) * 2 powi (k + 1)"
    using assms(3) by (intro to_double_representable_less) simp_all
  ultimately show ?thesis by simp
qed


lemma round_half_even_scaled_near:
  assumes "0 < q" and "\<bar>y - of_int m * q\<bar> < q / 2"
  shows "round_half_even (y / q) = m"
proof -
  have "y / q - of_int m = (y - of_int m * q) / q" using assms(1) by (simp add: field_simps)
  then have "\<bar>y / q - of_int m\<bar> = \<bar>y - of_int m * q\<bar> / q"
    using assms(1) by (simp add: abs_divide)
  also have "\<dots> < (q / 2) / q" using assms by (simp add: divide_strict_right_mono)
  also have "\<dots> = 1 / 2" using assms(1) by simp
  finally show ?thesis by (rule round_half_even_near)
qed

lemma two_powi_m7: "(2::rat) powi (- 7) = 1 / 128"
  by (simp add: power_int_minus_divide)

lemma two_powi_m6: "(2::rat) powi (- 6) = 1 / 64"
  by (simp add: power_int_minus_divide)

lemma cents_stable_pos:
  assumes "0 < c" and "c = of_int n / 100"
  shows "to_double (toFixed2 (to_double c)) = to_double c"
proof -
  define k where "k = qexp c"
  define q where "q = (2::rat) powi k"
  define m where "m = round_half_even (c / q)"
  define x where "x = of_int m * q"
  have q: "0 < q" by (simp add: q_def)
  have x: "to_double c = x"
    using assms(1) by (simp add: to_double_scaled x_def m_def q_def k_def)
  have err: "\<bar>x - c\<bar> \<le> q / 2"
    using to_double_error [of c] by (simp add: x quantum_qexp q_def k_def)
  show ?thesis
  proof (cases "k \<le> - 7")
    case True
    then have "q \<le> 2 powi (- 7)" unfolding q_def by (simp only: two_powi_le_iff)
    then have "q \<le> 1 / 128" by (simp only: two_powi_m7)
    with err have "\<bar>x - of_int n / 100\<bar> < 1 / 200" using assms(2) by simp
    then have "toFixed2 x = of_int n / 100" by (rule toFixed2_near)
    then show ?thesis by (simp add: x assms(2) [symmetric])
  next
    case False
    then have k: "- 6 \<le> k" by simp
    then have "2 powi (- 6) \<le> q" unfolding q_def by (simp only: two_powi_le_iff)
    then have q64: "1 / 64 \<le> q" by (simp only: two_powi_m6)
    from k have b: "binade c = k + 52" using assms(1) by (simp add: k_def qexp_pos max_def split: if_splits)
    then have normal: "- 1022 \<le> binade c" using k by simp
    have lo: "2 ^ 52 * q \<le> c" using above_52_quanta [OF assms(1) normal] by (simp add: q_def k_def)
    have hi: "c < 2 ^ 53 * q" using below_53_quanta [OF assms(1)] by (simp add: q_def k_def)
    from lo q have "of_int (2 ^ 52) \<le> c / q" by (simp add: field_simps)
    then have mlo: "2 ^ 52 \<le> m" unfolding m_def by (rule round_half_even_lower)
    from hi q have "c / q \<le> of_int (2 ^ 53)" by (simp add: field_simps)
    then have mhi: "m \<le> 2 ^ 53" unfolding m_def by (rule round_half_even_upper)
    from mlo have mpos: "0 < m" by simp
    have k1074: "- 1074 \<le> k" using k by simp
    have rep: "to_double x = x"
      unfolding x_def q_def by (rule to_double_representable [OF mpos mhi k1074])
    show ?thesis
    proof (cases "m = 2 ^ 52 \<or> m = 2 ^ 53")
      case True
      have "\<exists>N::int. x = of_int N"
      proof -
        have "(52::nat) \<le> 52" and "(52::nat) \<le> 53" by simp_all
        with True have "\<exists>j::nat. m = 2 ^ j \<and> 52 \<le> j" by blast
        then obtain j :: nat where m: "m = 2 ^ j" and j: "52 \<le> j" by blast
        define i where "i = nat (int j + k)"
        have i: "int j + k = int i" using j k by (simp add: i_def)
        have "x = 2 powi (int j + k)" by (simp add: x_def q_def m power_int_add)
        then have "x = 2 powi int i" by (simp only: i)
        then have "x = of_int (2 ^ i)" by simp
        then show ?thesis by blast
      qed
      then obtain N :: int where "x = of_int N" by blast
      then have "toFixed2 x = x" by (simp add: toFixed2_of_int)
      then show ?thesis by (simp add: x rep)
    next
      case False
      with mlo mhi have m1: "2 ^ 52 + 1 \<le> m" and m2: "m \<le> 2 ^ 53 - 1" by simp_all
      define c' where "c' = toFixed2 x"
      have e': "\<bar>c' - x\<bar> \<le> 1 / 200" unfolding c'_def by (rule toFixed2_error)
      from m1 have "(of_int (2 ^ 52 + 1) :: rat) \<le> of_int m" by (simp only: of_int_le_iff)
      then have "of_int (2 ^ 52 + 1) * q \<le> x" unfolding x_def using q by (simp only: mult_le_cancel_right_pos)
      then have xlo: "2 ^ 52 * q + q \<le> x" by (simp add: algebra_simps)
      from m2 have "(of_int m :: rat) \<le> of_int (2 ^ 53 - 1)" by (simp only: of_int_le_iff)
      then have "x \<le> of_int (2 ^ 53 - 1) * q" unfolding x_def using q by (simp only: mult_le_cancel_right_pos)
      then have xhi: "x \<le> 2 ^ 53 * q - q" by (simp add: algebra_simps)
      have clo: "2 ^ 52 * q < c'" using xlo e' q64 by linarith
      have chi: "c' < 2 ^ 53 * q" using xhi e' q64 by linarith
      have p52: "(2::rat) powi (k + 52) = 2 ^ 52 * q" by (simp add: q_def power_int_add)
      have p53: "(2::rat) powi (k + 52 + 1) = 2 ^ 53 * q" by (simp add: q_def power_int_add)
      have c'pos: "0 < c'" using clo q by (simp add: less_trans [OF _ clo])
      have "binade c' = k + 52"
        by (rule binade_unique [OF c'pos]) (use clo chi p52 p53 in simp_all)
      then have qe: "qexp c' = k" using c'pos k by (simp add: qexp_pos)
      have "\<bar>c' - of_int m * q\<bar> < q / 2" using e' q64 unfolding x_def by linarith
      with q have "round_half_even (c' / q) = m" by (rule round_half_even_scaled_near)
      then have "to_double c' = x"
        using c'pos by (simp add: to_double_scaled qe x_def q_def)
      then show ?thesis by (simp add: x c'_def)
    qed
  qed
qed

lemma cents_stable: "to_double (toFixed2 (to_double (toFixed2 y))) = to_double (toFixed2 y)"
proof -
  obtain n :: int where n: "toFixed2 y = of_int n / 100" using toFixed2_is_cents by blast
  consider "toFixed2 y < 0" | "toFixed2 y = 0" | "0 < toFixed2 y" by linarith
  then show ?thesis
  proof cases
    case 1
    then have "0 < - toFixed2 y" by simp
    moreover have "- toFixed2 y = of_int (- n) / 100" by (simp add: n)
    ultimately have "to_double (toFixed2 (to_double (- toFixed2 y))) = to_double (- toFixed2 y)"
      by (rule cents_stable_pos)
    then show ?thesis by (simp add: to_double_minus toFixed2_minus)
  next
    case 2
    then show ?thesis by (simp only: to_double_zero toFixed2_zero)
  next
    case 3
    then show ?thesis using n by (rule cents_stable_pos)
  qed
qed



subsection \<open>The sign and the size of a rounded number\<close>

lemma binade_ge: 
  assumes "0 < x" and "2 powi e \<le> x"
  shows "e \<le> binade x"
proof -
  have "(2::rat) powi e < 2 powi (binade x + 1)"
    using assms(2) binade_bounds(2) [OF assms(1)] by (rule le_less_trans)
  then show ?thesis by (simp add: two_powi_less_iff)
qed

lemma binade_le:
  assumes "0 < x" and "x \<le> 2 powi e"
  shows "binade x \<le> e"
proof -
  have "(2::rat) powi binade x \<le> 2 powi e"
    using binade_bounds(1) [OF assms(1)] assms(2) by (rule order_trans)
  then show ?thesis by (simp add: two_powi_le_iff)
qed

lemma to_double_pos_normal:
  assumes "0 < x" and "- 1022 \<le> binade x"
  shows "0 < to_double x"
proof -
  have q: "0 < (2::rat) powi qexp x" by simp
  have "2 ^ 52 * 2 powi qexp x \<le> x" using assms by (rule above_52_quanta)
  with q have "of_int (2 ^ 52) \<le> x / 2 powi qexp x" by (simp add: field_simps)
  then have "2 ^ 52 \<le> round_half_even (x / 2 powi qexp x)" by (rule round_half_even_lower)
  then have "0 < round_half_even (x / 2 powi qexp x)" by simp
  then have "0 < (of_int (round_half_even (x / 2 powi qexp x)) :: rat) * 2 powi qexp x"
    using q by (simp only: zero_less_mult_iff of_int_0_less_iff simp_thms)
  then show ?thesis using assms(1) by (simp add: to_double_scaled)
qed

lemma to_double_near_zero:
  assumes "- (1 / 256) \<le> x" and "x < 0"
  shows "- (1 / 200) < to_double x" and "to_double x \<le> 0"
proof -
  have "(2::rat) powi (- 8) = 1 / 256" by (simp add: power_int_minus_divide)
  with assms have "\<bar>x\<bar> \<le> 2 powi (- 8)" by simp
  moreover have "0 < \<bar>x\<bar>" using assms(2) by simp
  ultimately have "binade \<bar>x\<bar> \<le> - 8" by (intro binade_le)
  then have "qexp x \<le> - 10" by (simp add: qexp_def)
  then have "(2::rat) powi qexp x \<le> 2 powi (- 10)" by (simp only: two_powi_le_iff)
  also have "(2::rat) powi (- 10) = 1 / 1024" by (simp add: power_int_minus_divide)
  finally have "quantum x \<le> 1 / 1024" by (simp only: quantum_qexp)
  with to_double_error [of x] have "\<bar>to_double x - x\<bar> \<le> 1 / 2048" by simp
  with assms(1) show "- (1 / 200) < to_double x" by linarith
  from assms(2) show "to_double x \<le> 0" by (simp add: to_double_nonpos)
qed

lemma toFixed2_nonneg: "0 \<le> x \<Longrightarrow> 0 \<le> toFixed2 x"
  by (simp add: toFixed2_def)

lemma toFixed2_neg_iff: "toFixed2 x < 0 \<longleftrightarrow> x \<le> - (1 / 200)"
proof (cases "x < 0")
  case False
  then show ?thesis using toFixed2_nonneg [of x] by simp
next
  case True
  have "(0 < \<lfloor>(- x) * 100 + 1 / 2\<rfloor>) = (1 \<le> (- x) * 100 + 1 / 2)"
    using zero_less_floor by blast
  moreover have "(toFixed2 x < 0) = (0 < \<lfloor>(- x) * 100 + 1 / 2\<rfloor>)"
    using True by (simp add: toFixed2_def)
  ultimately have "(toFixed2 x < 0) = (1 \<le> (- x) * 100 + 1 / 2)" by simp
  also have "\<dots> = (x \<le> - (1 / 200))" by (simp add: field_simps) linarith
  finally show ?thesis .
qed

lemma toFixed2_small_negative:
  assumes "- (1 / 200) < x" and "x \<le> 0"
  shows "toFixed2 x = 0"
proof -
  have "\<not> toFixed2 x < 0" using assms(1) by (simp add: toFixed2_neg_iff)
  moreover have "toFixed2 x \<le> 0"
    using toFixed2_nonneg [of "- x"] assms(2) by (simp add: toFixed2_minus)
  ultimately show ?thesis by simp
qed

lemma negative_cents:
  assumes "toFixed2 x < 0"
  shows "toFixed2 x \<le> - (1 / 100)"
proof -
  obtain n :: int where n: "toFixed2 x = of_int n / 100" using toFixed2_is_cents by blast
  with assms have "(of_int n :: rat) < 0" by simp
  then have "n \<le> - 1" by simp
  then have "(of_int n :: rat) \<le> of_int (- 1)" by (simp only: of_int_le_iff)
  with n show ?thesis by simp
qed

lemma parseFloat_toFixed2_nonneg: "0 \<le> x \<Longrightarrow> 0 \<le> parseFloat_toFixed2 x"
  by (simp add: parseFloat_toFixed2_def to_double_nonneg toFixed2_nonneg)

lemma parseFloat_toFixed2_neg_iff: "parseFloat_toFixed2 x < 0 \<longleftrightarrow> x \<le> - (1 / 200)"
proof
  assume "parseFloat_toFixed2 x < 0"
  then have "\<not> 0 \<le> toFixed2 x"
    using to_double_nonneg [of "toFixed2 x"] by (auto simp: parseFloat_toFixed2_def)
  then show "x \<le> - (1 / 200)" by (simp add: toFixed2_neg_iff [symmetric])
next
  assume "x \<le> - (1 / 200)"
  then have "toFixed2 x < 0" by (simp add: toFixed2_neg_iff)
  then have c: "1 / 100 \<le> - toFixed2 x" using negative_cents [of x] by simp
  then have pos: "0 < - toFixed2 x" by simp
  have "(2::rat) powi (- 7) \<le> 1 / 100" by (simp add: two_powi_m7)
  with c have "2 powi (- 7) \<le> - toFixed2 x" by simp
  with pos have "- 7 \<le> binade (- toFixed2 x)" by (rule binade_ge)
  then have "- 1022 \<le> binade (- toFixed2 x)" by simp
  with pos have "0 < to_double (- toFixed2 x)" by (rule to_double_pos_normal)
  then show "parseFloat_toFixed2 x < 0" by (simp add: parseFloat_toFixed2_def to_double_minus)
qed

lemma parseFloat_toFixed2_idem:
  "parseFloat_toFixed2 (parseFloat_toFixed2 x) = parseFloat_toFixed2 x"
  unfolding parseFloat_toFixed2_def by (rule cents_stable)

lemma parseFloat_toFixed2_zero: "parseFloat_toFixed2 0 = 0"
  by (simp add: parseFloat_toFixed2_def toFixed2_zero to_double_zero)

lemma parseFloat_toFixed2_near_zero:
  assumes "- (1 / 256) \<le> x" and "x < 0"
  shows "parseFloat_toFixed2 (to_double x) = 0"
proof -
  have "toFixed2 (to_double x) = 0"
    using to_double_near_zero [OF assms] by (rule toFixed2_small_negative)
  then show ?thesis by (simp add: parseFloat_toFixed2_def to_double_zero)
qed


subsection \<open>Reading the store after a call\<close>

lemma getBalance_ensureEntry: "getBalance (ensureEntry ub u) v = getBalance ub v"
  by (simp add: getBalance_def ensureEntry_def falsy_def split: option.splits)

lemma entry_ensureEntry: "the (ensureEntry ub u u) = getBalance ub u"
  by (simp add: getBalance_def ensureEntry_def falsy_def split: option.splits)

lemma getBalance_update: "getBalance (ub(u \<mapsto> b)) v = (if v = u then b else getBalance ub v)"
  by (simp add: getBalance_def)

lemma getBalance_empty: "getBalance userBalances0 v = 0"
  by (simp add: getBalance_def userBalances0_def)

lemma addBalance_fst:
  "fst (addBalance ub u a) = parseFloat_toFixed2 (to_double (getBalance ub u + a))"
  by (simp add: addBalance_def Let_def entry_ensureEntry)

lemma addBalance_snd:
  "getBalance (snd (addBalance ub u a)) v =
     (if v = u then parseFloat_toFixed2 (to_double (getBalance ub u + a)) else getBalance ub v)"
  by (simp add: addBalance_def Let_def entry_ensureEntry getBalance_ensureEntry getBalance_update)

lemma subtractBalance_fst:
  "fst (subtractBalance ub u a) =
     (if parseFloat_toFixed2 (to_double (getBalance ub u - a)) < 0 then Inl InsufficientFunds
      else Inr (parseFloat_toFixed2 (to_double (getBalance ub u - a))))"
  by (simp add: subtractBalance_def Let_def entry_ensureEntry)

lemma subtractBalance_snd:
  "getBalance (snd (subtractBalance ub u a)) v =
     (if v = u \<and> \<not> parseFloat_toFixed2 (to_double (getBalance ub u - a)) < 0
      then parseFloat_toFixed2 (to_double (getBalance ub u - a))
      else getBalance ub v)"
  by (simp add: subtractBalance_def Let_def entry_ensureEntry getBalance_ensureEntry getBalance_update)

lemma apply_op_getBalance_nonneg:
  assumes "nonneg_credit x" and "\<And>v. 0 \<le> getBalance ub v"
  shows "0 \<le> getBalance (apply_op ub x) v"
proof (cases x)
  case (GetBalance u)
  then show ?thesis using assms by simp
next
  case (AddBalance u a)
  with assms have "0 \<le> getBalance ub u + a" by simp
  then have "0 \<le> to_double (getBalance ub u + a)" by (rule to_double_nonneg)
  then have "0 \<le> parseFloat_toFixed2 (to_double (getBalance ub u + a))"
    by (rule parseFloat_toFixed2_nonneg)
  with AddBalance assms(2) show ?thesis by (simp add: addBalance_snd)
next
  case (SubtractBalance u a)
  with assms(2) show ?thesis by (simp add: subtractBalance_snd not_less)
qed

lemma stores_nonneg:
  "(\<And>v. 0 \<le> getBalance ub v) \<Longrightarrow> list_all nonneg_credit ops \<Longrightarrow>
   ub' \<in> set (stores ub ops) \<Longrightarrow> 0 \<le> getBalance ub' u"
proof (induction ops arbitrary: ub)
  case Nil
  then show ?case by simp
next
  case (Cons x xs)
  have step: "\<And>v. 0 \<le> getBalance (apply_op ub x) v"
    using Cons.prems(1,2) by (simp add: apply_op_getBalance_nonneg)
  from Cons.prems(3) consider "ub' = apply_op ub x" | "ub' \<in> set (stores (apply_op ub x) xs)"
    by auto
  then show ?case
  proof cases
    case 1
    then show ?thesis using step by simp
  next
    case 2
    with Cons.IH [of "apply_op ub x"] step Cons.prems(2) show ?thesis by simp
  qed
qed

lemma apply_op_cents:
  assumes "\<And>v. parseFloat_toFixed2 (getBalance ub v) = getBalance ub v"
  shows "parseFloat_toFixed2 (getBalance (apply_op ub x) v) = getBalance (apply_op ub x) v"
  using assms
  by (cases x) (simp_all add: addBalance_snd subtractBalance_snd parseFloat_toFixed2_idem)

lemma stores_cents:
  "(\<And>v. parseFloat_toFixed2 (getBalance ub v) = getBalance ub v) \<Longrightarrow>
   ub' \<in> set (stores ub ops) \<Longrightarrow> parseFloat_toFixed2 (getBalance ub' u) = getBalance ub' u"
proof (induction ops arbitrary: ub)
  case Nil
  then show ?case by simp
next
  case (Cons x xs)
  have step: "\<And>v. parseFloat_toFixed2 (getBalance (apply_op ub x) v) = getBalance (apply_op ub x) v"
    using Cons.prems(1) by (rule apply_op_cents)
  from Cons.prems(2) consider "ub' = apply_op ub x" | "ub' \<in> set (stores (apply_op ub x) xs)"
    by auto
  then show ?case
  proof cases
    case 1
    then show ?thesis using step by simp
  next
    case 2
    with Cons.IH [of "apply_op ub x"] step show ?thesis by simp
  qed
qed


subsection \<open>The debit\<close>

text \<open>The debit throws exactly when the difference, as a double, is at or below minus half
  a cent; an amount that does not exceed the balance is always debited; a refused debit
  leaves every balance as it was.\<close>

lemma subtractBalance_throws_iff:
  "fst (subtractBalance ub u a) = Inl InsufficientFunds \<longleftrightarrow>
     to_double (getBalance ub u - a) \<le> - (1 / 200)"
  by (simp add: subtractBalance_fst parseFloat_toFixed2_neg_iff)

lemma subtractBalance_covered:
  assumes "a \<le> getBalance ub u"
  shows "fst (subtractBalance ub u a) = Inr (parseFloat_toFixed2 (to_double (getBalance ub u - a)))"
proof -
  from assms have "0 \<le> getBalance ub u - a" by simp
  then have "0 \<le> to_double (getBalance ub u - a)" by (rule to_double_nonneg)
  then have "0 \<le> parseFloat_toFixed2 (to_double (getBalance ub u - a))"
    by (rule parseFloat_toFixed2_nonneg)
  then show ?thesis by (simp add: subtractBalance_fst not_less)
qed

lemma subtractBalance_refused:
  assumes "fst (subtractBalance ub u a) = Inl e"
  shows "getBalance (snd (subtractBalance ub u a)) v = getBalance ub v"
  using assms by (simp add: subtractBalance_fst subtractBalance_snd split: if_splits)

lemma subtractBalance_marginal:
  assumes "getBalance ub u < a" and "a \<le> getBalance ub u + 1 / 256"
  shows "fst (subtractBalance ub u a) = Inr 0"
    and "getBalance (snd (subtractBalance ub u a)) u = 0"
proof -
  have "parseFloat_toFixed2 (to_double (getBalance ub u - a)) = 0"
    by (rule parseFloat_toFixed2_near_zero) (use assms in simp_all)
  then show "fst (subtractBalance ub u a) = Inr 0"
    and "getBalance (snd (subtractBalance ub u a)) u = 0"
    by (simp_all add: subtractBalance_fst subtractBalance_snd)
qed

text \<open>The roundings show: 0.02 - 0.005 is the double below 0.015 and leaves 0.01, where
  the exact difference of the decimals, 0.015, would print as 0.02.\<close>

lemma subtractBalance_rounds_doubles:
  "fst (subtractBalance (snd (addBalance userBalances0 u (to_double (1 / 50)))) u
          (to_double (1 / 200))) = Inr (to_double (1 / 100)) \<and>
   toFixed2 (1 / 50 - 1 / 200) = 1 / 50"
proof -
  have e1: "parseFloat_toFixed2 (to_double (to_double (1 / 50))) = to_double (1 / 50)"
    by code_simp
  have e2: "parseFloat_toFixed2 (to_double (to_double (1 / 50) - to_double (1 / 200))) =
              to_double (1 / 100)"
    by code_simp
  have e3: "\<not> to_double (1 / 100) < 0" by code_simp
  have e4: "toFixed2 (1 / 50 - 1 / 200) = 1 / 50" by code_simp
  have bal: "getBalance (snd (addBalance userBalances0 u (to_double (1 / 50)))) u = to_double (1 / 50)"
    by (simp add: addBalance_snd getBalance_empty e1)
  have "fst (subtractBalance (snd (addBalance userBalances0 u (to_double (1 / 50)))) u
          (to_double (1 / 200))) = Inr (to_double (1 / 100))"
    by (simp only: subtractBalance_fst bal e2 e3 if_False)
  with e4 show ?thesis by blast
qed

lemma to_double_10: "to_double 10 = 10"
  by code_simp

lemma parseFloat_toFixed2_10: "parseFloat_toFixed2 10 = 10"
  by code_simp

lemma balance_after_credit_10: "getBalance (snd (addBalance userBalances0 u 10)) u = 10"
  by (simp add: addBalance_snd getBalance_empty to_double_10 parseFloat_toFixed2_10)

text \<open>
  C3. A user holding 10 is debited 10 + 1/256 (both are doubles, and so is their
  difference). The amount exceeds the balance, and \<open>hasEnoughBalance\<close> says so; yet
  \<open>subtractBalance\<close> does not throw: it returns the new balance 0 (the difference
  \<open>-0.00390625\<close> prints as \<open>-0.00\<close>, which \<open>parseFloat\<close> reads as negative zero, and
  \<open>-0 < 0\<close> is false) and stores it.
\<close>

theorem subtractBalance_marginal_overdraft:
  "getBalance (snd (addBalance userBalances0 7 10)) 7 = 10 \<and>
   \<not> hasEnoughBalance (snd (addBalance userBalances0 7 10)) 7 (10 + 1 / 256) \<and>
   fst (subtractBalance (snd (addBalance userBalances0 7 10)) 7 (10 + 1 / 256)) = Inr 0 \<and>
   getBalance (snd (subtractBalance (snd (addBalance userBalances0 7 10)) 7 (10 + 1 / 256))) 7 = 0"
proof -
  let ?ub = "snd (addBalance userBalances0 7 10)"
  note bal = balance_after_credit_10
  have d: "to_double (- (1 / 256)) = - (1 / 256)" by code_simp
  have r: "parseFloat_toFixed2 (- (1 / 256)) = 0" by code_simp
  have "\<not> hasEnoughBalance ?ub 7 (10 + 1 / 256)"
    by (simp add: hasEnoughBalance_def bal)
  moreover have "fst (subtractBalance ?ub 7 (10 + 1 / 256)) = Inr 0"
    by (simp add: subtractBalance_fst bal d r)
  moreover have "getBalance (snd (subtractBalance ?ub 7 (10 + 1 / 256))) 7 = 0"
    by (simp add: subtractBalance_snd bal d r)
  ultimately show ?thesis using bal by simp
qed


subsection \<open>The balance is never negative\<close>

text \<open>
  C6. Starting from the empty ledger, after each call of any sequence of \<open>getBalance\<close>,
  \<open>addBalance\<close> with an amount that is not negative, and \<open>subtractBalance\<close> with any
  amount, every user's balance is at least zero, as read by \<open>getBalance\<close> and as
  stored.
\<close>

theorem balance_never_negative:
  assumes "list_all nonneg_credit ops" and "ub' \<in> set (stores userBalances0 ops)"
  shows "0 \<le> getBalance ub' u \<and> (\<forall>b. ub' u = Some b \<longrightarrow> 0 \<le> b)"
proof -
  have "\<And>w. 0 \<le> getBalance userBalances0 w" by (simp add: getBalance_empty)
  then have "0 \<le> getBalance ub' u"
    using assms by (rule stores_nonneg)
  then show ?thesis by (auto simp: getBalance_def)
qed

theorem balance_never_negative_witness:
  "0 \<le> getBalance (apply_op (apply_op userBalances0 (AddBalance 1 5)) (SubtractBalance 1 8)) 1"
proof -
  let ?ops = "[AddBalance 1 5, SubtractBalance 1 8]"
  have v: "list_all nonneg_credit ?ops" by simp
  have m: "apply_op (apply_op userBalances0 (AddBalance 1 5)) (SubtractBalance 1 8)
             \<in> set (stores userBalances0 ?ops)" by simp
  from balance_never_negative [OF v m] show ?thesis by simp
qed


subsection \<open>Cent granularity\<close>

text \<open>
  C10. \<open>addBalance\<close> returns and stores \<open>parseFloat((old + amount).toFixed(2))\<close>, with
  the sum rounded to a double first. \<open>subtractBalance\<close> computes
  \<open>parseFloat((old - amount).toFixed(2))\<close> in the same way; it throws when that number is
  negative, leaving the balance as it was, and otherwise returns and stores it; an amount
  that does not exceed the balance is always debited. What \<open>addBalance\<close> returns equals
  its own two-decimal rounding, and so does, after every call of every sequence of ledger
  calls from the empty ledger, the balance read by \<open>getBalance\<close>. The edge case: a debit
  larger than the balance by at most 1/256 is accepted and leaves the balance at zero.
\<close>

theorem ledger_cent_granularity:
  "fst (addBalance ub u a) = parseFloat_toFixed2 (to_double (getBalance ub u + a)) \<and>
   getBalance (snd (addBalance ub u a)) u = parseFloat_toFixed2 (to_double (getBalance ub u + a)) \<and>
   parseFloat_toFixed2 (fst (addBalance ub u a)) = fst (addBalance ub u a) \<and>
   fst (subtractBalance ub u a) =
     (if parseFloat_toFixed2 (to_double (getBalance ub u - a)) < 0 then Inl InsufficientFunds
      else Inr (parseFloat_toFixed2 (to_double (getBalance ub u - a)))) \<and>
   getBalance (snd (subtractBalance ub u a)) u =
     (if parseFloat_toFixed2 (to_double (getBalance ub u - a)) < 0 then getBalance ub u
      else parseFloat_toFixed2 (to_double (getBalance ub u - a))) \<and>
   (a \<le> getBalance ub u \<longrightarrow>
      fst (subtractBalance ub u a) = Inr (parseFloat_toFixed2 (to_double (getBalance ub u - a))) \<and>
      getBalance (snd (subtractBalance ub u a)) u =
        parseFloat_toFixed2 (to_double (getBalance ub u - a))) \<and>
   (\<forall>ub' \<in> set (stores userBalances0 ops).
      parseFloat_toFixed2 (getBalance ub' v) = getBalance ub' v) \<and>
   (getBalance ub u < a \<and> a \<le> getBalance ub u + 1 / 256 \<longrightarrow>
      fst (subtractBalance ub u a) = Inr 0 \<and> getBalance (snd (subtractBalance ub u a)) u = 0)"
proof -
  let ?d = "parseFloat_toFixed2 (to_double (getBalance ub u - a))"
  have add: "fst (addBalance ub u a) = parseFloat_toFixed2 (to_double (getBalance ub u + a)) \<and>
     getBalance (snd (addBalance ub u a)) u = parseFloat_toFixed2 (to_double (getBalance ub u + a)) \<and>
     parseFloat_toFixed2 (fst (addBalance ub u a)) = fst (addBalance ub u a)"
    by (simp add: addBalance_fst addBalance_snd parseFloat_toFixed2_idem)
  have sub1: "fst (subtractBalance ub u a) = (if ?d < 0 then Inl InsufficientFunds else Inr ?d)"
    by (rule subtractBalance_fst)
  have sub2: "getBalance (snd (subtractBalance ub u a)) u = (if ?d < 0 then getBalance ub u else ?d)"
    by (simp add: subtractBalance_snd)
  have covered: "a \<le> getBalance ub u \<longrightarrow>
      fst (subtractBalance ub u a) = Inr ?d \<and> getBalance (snd (subtractBalance ub u a)) u = ?d"
  proof
    assume h: "a \<le> getBalance ub u"
    then have r: "fst (subtractBalance ub u a) = Inr ?d" by (rule subtractBalance_covered)
    then have "\<not> ?d < 0" by (simp add: subtractBalance_fst split: if_splits)
    with r show "fst (subtractBalance ub u a) = Inr ?d \<and>
                 getBalance (snd (subtractBalance ub u a)) u = ?d"
      by (simp add: subtractBalance_snd)
  qed
  have start: "\<And>w. parseFloat_toFixed2 (getBalance userBalances0 w) = getBalance userBalances0 w"
    by (simp add: getBalance_empty parseFloat_toFixed2_zero)
  have inv: "\<forall>ub' \<in> set (stores userBalances0 ops).
               parseFloat_toFixed2 (getBalance ub' v) = getBalance ub' v"
  proof
    fix ub' assume "ub' \<in> set (stores userBalances0 ops)"
    with start show "parseFloat_toFixed2 (getBalance ub' v) = getBalance ub' v"
      by (rule stores_cents)
  qed
  have edge: "getBalance ub u < a \<and> a \<le> getBalance ub u + 1 / 256 \<longrightarrow>
      fst (subtractBalance ub u a) = Inr 0 \<and> getBalance (snd (subtractBalance ub u a)) u = 0"
    using subtractBalance_marginal [of ub u a] by blast
  from add sub1 sub2 covered inv edge show ?thesis by blast
qed


theorem ledger_cent_granularity_witness:
  "fst (addBalance (snd (addBalance userBalances0 3 1)) 3 (to_double (1 / 200))) = 1 \<and>
   fst (subtractBalance (snd (addBalance userBalances0 3 10)) 3 (5 / 2)) = Inr (15 / 2) \<and>
   fst (subtractBalance (snd (addBalance userBalances0 3 10)) 3 (10 + 1 / 256)) = Inr 0 \<and>
   fst (subtractBalance (snd (addBalance userBalances0 3 10)) 3 11) = Inl InsufficientFunds \<and>
   getBalance (snd (subtractBalance (snd (addBalance userBalances0 3 10)) 3 11)) 3 = 10 \<and>
   parseFloat_toFixed2 (getBalance (apply_op userBalances0 (AddBalance 3 (1 / 8))) 3) =
     getBalance (apply_op userBalances0 (AddBalance 3 (1 / 8))) 3"
proof -
  let ?ub = "snd (addBalance userBalances0 3 10)"
  have bal: "getBalance ?ub 3 = 10" by (rule balance_after_credit_10)
  let ?ub1 = "snd (addBalance userBalances0 3 1)"
  have e0: "parseFloat_toFixed2 (to_double 1) = 1" by code_simp
  have bal1: "getBalance ?ub1 3 = 1" by (simp add: addBalance_snd getBalance_empty e0)
  have e1: "parseFloat_toFixed2 (to_double (1 + to_double (1 / 200))) = 1" by code_simp
  have e2: "parseFloat_toFixed2 (to_double (15 / 2)) = 15 / 2" by code_simp
  have e3: "parseFloat_toFixed2 (to_double (- 1)) = - 1" by code_simp
  have m: "apply_op userBalances0 (AddBalance 3 (1 / 8))
             \<in> set (stores userBalances0 [AddBalance 3 (1 / 8)])" by simp
  note t1 = ledger_cent_granularity [of ?ub1 3 "to_double (1 / 200)" "[AddBalance 3 (1 / 8)]" 3]
  note t2 = ledger_cent_granularity [of ?ub 3 "5 / 2" "[]" 3]
  note t3 = ledger_cent_granularity [of ?ub 3 "10 + 1 / 256" "[]" 3]
  note t4 = ledger_cent_granularity [of ?ub 3 11 "[]" 3]
  from t1 have p1: "fst (addBalance ?ub1 3 (to_double (1 / 200))) = 1"
    by (simp only: bal1 e1)
  from t1 m have p6: "parseFloat_toFixed2 (getBalance (apply_op userBalances0 (AddBalance 3 (1 / 8))) 3) =
     getBalance (apply_op userBalances0 (AddBalance 3 (1 / 8))) 3"
    by blast
  from t2 have "5 / 2 \<le> getBalance ?ub 3 \<longrightarrow>
      fst (subtractBalance ?ub 3 (5 / 2)) =
        Inr (parseFloat_toFixed2 (to_double (getBalance ?ub 3 - 5 / 2)))"
    by blast
  then have p2: "fst (subtractBalance ?ub 3 (5 / 2)) = Inr (15 / 2)"
    by (simp add: bal e2)
  from t3 have "getBalance ?ub 3 < 10 + 1 / 256 \<and> 10 + 1 / 256 \<le> getBalance ?ub 3 + 1 / 256 \<longrightarrow>
      fst (subtractBalance ?ub 3 (10 + 1 / 256)) = Inr 0"
    by blast
  then have p3: "fst (subtractBalance ?ub 3 (10 + 1 / 256)) = Inr 0"
    by (simp add: bal)
  from t4 have "fst (subtractBalance ?ub 3 11) =
     (if parseFloat_toFixed2 (to_double (getBalance ?ub 3 - 11)) < 0 then Inl InsufficientFunds
      else Inr (parseFloat_toFixed2 (to_double (getBalance ?ub 3 - 11))))"
    and "getBalance (snd (subtractBalance ?ub 3 11)) 3 =
     (if parseFloat_toFixed2 (to_double (getBalance ?ub 3 - 11)) < 0 then getBalance ?ub 3
      else parseFloat_toFixed2 (to_double (getBalance ?ub 3 - 11)))"
    by blast+
  then have p4: "fst (subtractBalance ?ub 3 11) = Inl InsufficientFunds"
    and p5: "getBalance (snd (subtractBalance ?ub 3 11)) 3 = 10"
    by (simp_all add: bal e3)
  from p1 p2 p3 p4 p5 p6 show ?thesis by blast
qed


section \<open>The markup schedule (src/proxySellerApi.js)\<close>

text \<open>\<open>calculateMarkupPercent(periodDays)\<close>, branch by branch; the period is a number of
  days.\<close>

definition calculateMarkupPercent :: "int \<Rightarrow> int" where
  "calculateMarkupPercent periodDays =
     (let baseMarkup = 80;
          markupReduction =
            (if periodDays \<le> 7 then 0
             else if periodDays \<le> 14 then 10
             else if periodDays \<le> 30 then 20
             else if periodDays \<le> 60 then 30
             else if periodDays \<le> 90 then 40
             else 40);
          markupPercent = baseMarkup - markupReduction
      in max 0 markupPercent)"

text \<open>The rental periods on sale, the keys of \<open>convertDaysToPeriodId\<close>.\<close>

definition rental_periods :: "int list" where
  "rental_periods = [7, 14, 30, 60, 90, 180]"

lemma markup_schedule:
  "map calculateMarkupPercent rental_periods = [80, 70, 60, 50, 40, 40]"
  by (simp add: calculateMarkupPercent_def rental_periods_def)

lemma calculateMarkupPercent_antimono:
  "p1 \<le> p2 \<Longrightarrow> calculateMarkupPercent p2 \<le> calculateMarkupPercent p1"
  by (simp add: calculateMarkupPercent_def)

text \<open>
  C7. The schedule is not strictly decreasing at its last step: the branch for periods
  above 90 days subtracts 40, the same as the branch for 90 days, where its comment
  announces 30 percent for 180 days and the function's own rule is ten points less
  for each period. Both 90 and 180 days are marked up by 40 percent.
\<close>

theorem calculateMarkupPercent_90_180:
  "calculateMarkupPercent 90 = 40 \<and> calculateMarkupPercent 180 = 40"
  by (simp add: calculateMarkupPercent_def)


section \<open>The identifier issuer (src/db.js)\<close>

text \<open>Decimal digits of a number: \<open>nextval(...)::TEXT\<close> and
  \<open>Date.now().toString()\<close>.\<close>

definition digit :: "nat \<Rightarrow> char" where
  "digit d = ''0123456789'' ! d"

function toString :: "nat \<Rightarrow> string" where
  "toString n = (if n < 10 then [digit n] else toString (n div 10) @ [digit (n mod 10)])"
  by pat_completeness auto
termination
  by (relation "measure id") auto

declare toString.simps [simp del]

lemma toString_digit: "n < 10 \<Longrightarrow> toString n = [digit n]"
  by (simp add: toString.simps [of n])

lemma toString_step: "10 \<le> n \<Longrightarrow> toString n = toString (n div 10) @ [digit (n mod 10)]"
  by (simp add: toString.simps [of n])

lemmas toString_eval = toString_digit toString_step digit_def

text \<open>PostgreSQL's \<open>LPAD(s, n, fill)\<close> pads on the left up to length \<open>n\<close> and truncates a
  longer string to its first \<open>n\<close> characters.\<close>

definition LPAD :: "string \<Rightarrow> nat \<Rightarrow> char \<Rightarrow> string" where
  "LPAD s n fill = (if n \<le> length s then take n s else replicate (n - length s) fill @ s)"

text \<open>\<open>s.slice(-6)\<close>: the last six characters, or all of a shorter string.\<close>

definition slice_last6 :: "string \<Rightarrow> string" where
  "slice_last6 s = drop (length s - 6) s"

text \<open>Reading a decimal string back, to tell identifiers apart.\<close>

definition digit_value :: "char \<Rightarrow> nat" where
  "digit_value c = of_char c - 48"

definition parse_decimal :: "string \<Rightarrow> nat" where
  "parse_decimal s = foldl (\<lambda>a c. 10 * a + digit_value c) 0 s"

datatype db_error = PoolNotInitialized

text \<open>
  \<open>generateCmId\<close>. \<open>pool\<close> says whether the pool exists; \<open>outage\<close> is \<open>None\<close> when the
  query on the sequence answers and \<open>Some now\<close> when it throws, \<open>now\<close> being what
  \<open>Date.now()\<close> then returns; \<open>seq\<close> is the value \<open>nextval('cm_id_seq')\<close> hands out
  next (the sequence starts with 1). The result is the identifier and the sequence's
  next value.
\<close>

definition generateCmId :: "bool \<Rightarrow> nat option \<Rightarrow> nat \<Rightarrow> (db_error + string) \<times> nat" where
  "generateCmId pool outage seq =
     (if \<not> pool then (Inl PoolNotInitialized, seq)
      else case outage of
             None \<Rightarrow> (Inr (''CM'' @ LPAD (toString seq) 6 (CHR ''0'')), seq + 1)
           | Some now \<Rightarrow> (Inr (''CM'' @ slice_last6 (toString now)), seq))"

text \<open>Two calls one after the other, the second on the sequence the first leaves.\<close>

definition issue_two ::
  "bool \<Rightarrow> nat option \<Rightarrow> nat option \<Rightarrow> nat \<Rightarrow> (db_error + string) \<times> (db_error + string)" where
  "issue_two pool outage1 outage2 seq =
     (let (id1, seq1) = generateCmId pool outage1 seq;
          (id2, seq2) = generateCmId pool outage2 seq1
      in (id1, id2))"

text \<open>
  C5. Two distinct calls can return the same identifier once the fallback is taken: two
  calls within one millisecond, two calls a million milliseconds apart, and a fallback
  call whose clock ends in the digits of the identifier the sequence has just issued.
  The docstring of \<open>generateCmId\<close> promises the next unique identifier.
\<close>

theorem generateCmId_fallback_collides:
  "issue_two True (Some 1700000123456) (Some 1700000123456) 8 =
     (Inr ''CM123456'', Inr ''CM123456'') \<and>
   issue_two True (Some 1700000123456) (Some 1700001123456) 8 =
     (Inr ''CM123456'', Inr ''CM123456'') \<and>
   issue_two True None (Some 1700000123456) 123456 =
     (Inr ''CM123456'', Inr ''CM123456'')"
proof -
  have a: "toString 1700000123456 = ''1700000123456''"
    and b: "toString 1700001123456 = ''1700001123456''"
    and c: "toString 123456 = ''123456''"
    by (simp_all add: toString_eval)
  show ?thesis
    by (simp add: issue_two_def generateCmId_def a b c slice_last6_def LPAD_def)
qed


text \<open>While the sequence answers and stays below a million, distinct values give
  distinct identifiers: the number can be read back from the text.\<close>

lemma digit_value_digit: "d < 10 \<Longrightarrow> digit_value (digit d) = d"
proof -
  assume "d < 10"
  then have "d = 0 \<or> d = 1 \<or> d = 2 \<or> d = 3 \<or> d = 4 \<or> d = 5 \<or> d = 6 \<or> d = 7 \<or>
             d = 8 \<or> d = 9" by presburger
  then show ?thesis
    by (elim disjE) (simp_all add: digit_def digit_value_def)
qed

lemma parse_decimal_snoc: "parse_decimal (s @ [c]) = 10 * parse_decimal s + digit_value c"
  by (simp add: parse_decimal_def)

lemma parse_decimal_toString: "parse_decimal (toString n) = n"
proof (induction n rule: toString.induct)
  case (1 n)
  show ?case
  proof (cases "n < 10")
    case True
    then show ?thesis by (simp add: toString_digit parse_decimal_def digit_value_digit)
  next
    case False
    then have "parse_decimal (toString n) = 10 * parse_decimal (toString (n div 10)) + n mod 10"
      by (simp add: toString_step parse_decimal_snoc digit_value_digit)
    with False "1.IH" show ?thesis by simp
  qed
qed

lemma parse_decimal_zeros: "parse_decimal (replicate k (CHR ''0'') @ s) = parse_decimal s"
  by (induction k) (simp_all add: parse_decimal_def digit_value_def)

lemma length_toString: "n < 10 ^ k \<Longrightarrow> 0 < k \<Longrightarrow> length (toString n) \<le> k"
proof (induction n arbitrary: k rule: toString.induct)
  case (1 n)
  show ?case
  proof (cases "n < 10")
    case True
    with "1.prems" show ?thesis by (simp add: toString_digit)
  next
    case False
    from "1.prems" obtain j where k: "k = Suc j" by (cases k) auto
    with False "1.prems" have j: "0 < j" by (cases j) auto
    from "1.prems" k have "n div 10 < 10 ^ j" by (simp add: less_mult_imp_div_less mult.commute)
    with "1.IH" [OF False _ j] have "length (toString (n div 10)) \<le> j" by simp
    with False k show ?thesis by (simp add: toString_step)
  qed
qed

lemma parse_decimal_LPAD:
  assumes "n < 1000000"
  shows "parse_decimal (LPAD (toString n) 6 (CHR ''0'')) = n"
proof -
  from assms have "n < 10 ^ 6" by simp
  then have "length (toString n) \<le> 6" by (rule length_toString) simp
  then show ?thesis
    by (cases "length (toString n) = 6")
       (simp_all add: LPAD_def parse_decimal_zeros parse_decimal_toString)
qed

lemma generateCmId_sequence_distinct:
  assumes "n < 1000000" and "m < 1000000" and "n \<noteq> m"
  shows "fst (generateCmId True None n) \<noteq> fst (generateCmId True None m)"
proof
  assume "fst (generateCmId True None n) = fst (generateCmId True None m)"
  then have "LPAD (toString n) 6 (CHR ''0'') = LPAD (toString m) 6 (CHR ''0'')"
    by (simp add: generateCmId_def)
  then have "parse_decimal (LPAD (toString n) 6 (CHR ''0'')) =
             parse_decimal (LPAD (toString m) 6 (CHR ''0''))" by simp
  with assms show False by (simp add: parse_decimal_LPAD)
qed

text \<open>The sequence itself repeats an identifier once it passes six digits, since
  \<open>LPAD\<close> truncates: the values 100000 and 1000000 give the same text.\<close>

lemma generateCmId_seven_digits:
  "fst (generateCmId True None 100000) = Inr ''CM100000'' \<and>
   fst (generateCmId True None 1000000) = Inr ''CM100000''"
proof -
  have "toString 100000 = ''100000''" and "toString 1000000 = ''1000000''"
    by (simp_all add: toString_eval)
  then show ?thesis by (simp add: generateCmId_def LPAD_def)
qed


section \<open>The payment confirmation loop (src/bot.js, startPaymentCheck)\<close>

text \<open>
  \<open>startPaymentCheck\<close> registers a callback with \<open>setInterval\<close>. The callback is
  asynchronous: it increments \<open>checkCount\<close>, suspends at
  \<open>await checkInvoiceStatus(invoiceId)\<close>, and runs its remaining statements when the
  status arrives. The timer does not wait for a suspended callback, so the model has one
  event for the timer firing and one for a status arriving at the oldest suspended
  callback; \<open>in_flight\<close> counts the suspended callbacks. \<open>checkCount\<close> is a variable
  of the enclosing function, shared by all callbacks and read after the suspension.
\<close>

datatype invoice_status = Paid | Active | Expired

datatype db_outcome = DbOk | DbDown

datatype pay_event =
    TimerFires
  | StatusArrives "invoice_status option" db_outcome

datatype pay_msg = DatabaseError | CreditFailed | DepositCredited rat rat | InvoiceExpired

record pay_state =
  interval_on :: bool
  registered :: bool
  checkCount :: nat
  in_flight :: nat
  user_balance :: "rat option"
  deposit_session :: bool
  sent :: "pay_msg list"

definition maxChecks :: nat where
  "maxChecks = 180"

text \<open>The state \<open>startPaymentCheck\<close> leaves: the interval runs and is registered in
  \<open>activePaymentChecks\<close>; \<open>balance\<close> is the user's row in \<open>users\<close>, if any.\<close>

definition startPaymentCheck :: "rat option \<Rightarrow> pay_state" where
  "startPaymentCheck balance =
     \<lparr>interval_on = True, registered = True, checkCount = 0, in_flight = 0,
      user_balance = balance, deposit_session = True, sent = []\<rparr>"

text \<open>\<open>clearInterval(checkInterval); delete activePaymentChecks[userId]\<close>\<close>

definition stop_check :: "pay_state \<Rightarrow> pay_state" where
  "stop_check s = s\<lparr>interval_on := False, registered := False\<rparr>"

text \<open>Modelled from the spec: the declaration of the \<open>users\<close> table is not in the
  sources; the balance of a row inserted without one is zero ("auto-registers an unknown
  user at zero balance first").\<close>

definition default_balance :: rat where
  "default_balance = 0"

text \<open>
  The statements of the callback after the suspension. A status of \<open>None\<close> is the
  \<open>null\<close> that \<open>checkInvoiceStatus\<close> returns on any failure. On \<open>paid\<close> the interval is
  cleared first; then, with a pool and a database that answers, a missing user row is
  inserted and \<open>UPDATE users SET balance = balance + amount\<close> runs. \<open>DbDown\<close> is a
  database whose first query throws.
\<close>

definition resume :: "bool \<Rightarrow> rat \<Rightarrow> pay_state \<Rightarrow> invoice_status option \<Rightarrow> db_outcome \<Rightarrow> pay_state" where
  "resume pool amount s st db =
     (case st of
        None \<Rightarrow> if maxChecks \<le> checkCount s then stop_check s else s
      | Some Paid \<Rightarrow>
          (let s1 = stop_check s in
           if \<not> pool then s1\<lparr>sent := sent s1 @ [DatabaseError]\<rparr>
           else if db = DbDown then s1\<lparr>sent := sent s1 @ [CreditFailed]\<rparr>
           else
             (let old = (case user_balance s1 of None \<Rightarrow> default_balance | Some b \<Rightarrow> b);
                  newBalance = old + amount
              in s1\<lparr>user_balance := Some newBalance,
                     sent := sent s1 @ [DepositCredited amount newBalance],
                     deposit_session := False\<rparr>))
      | Some other \<Rightarrow>
          if other = Expired \<or> maxChecks \<le> checkCount s
          then (stop_check s)\<lparr>sent := sent s @ [InvoiceExpired], deposit_session := False\<rparr>
          else s)"

fun pay_step :: "bool \<Rightarrow> rat \<Rightarrow> pay_state \<Rightarrow> pay_event \<Rightarrow> pay_state" where
  "pay_step pool amount s TimerFires =
     (if interval_on s
      then s\<lparr>checkCount := checkCount s + 1, in_flight := in_flight s + 1\<rparr>
      else s)"
| "pay_step pool amount s (StatusArrives st db) =
     (if in_flight s = 0 then s
      else resume pool amount (s\<lparr>in_flight := in_flight s - 1\<rparr>) st db)"

definition pay_run :: "bool \<Rightarrow> rat \<Rightarrow> pay_state \<Rightarrow> pay_event list \<Rightarrow> pay_state" where
  "pay_run pool amount s evs = foldl (pay_step pool amount) s evs"

text \<open>A schedule without overlap: every status arrives before the timer fires again.\<close>

fun one_at_a_time :: "(invoice_status option \<times> db_outcome) list \<Rightarrow> pay_event list" where
  "one_at_a_time [] = []"
| "one_at_a_time ((st, db) # rs) = TimerFires # StatusArrives st db # one_at_a_time rs"

text \<open>
  Without overlap the loop credits at most once: the first callback that sees \<open>paid\<close>
  clears the interval before it credits, and a cleared interval starts no callback.
\<close>

lemma pay_step_stopped:
  "\<not> interval_on s \<Longrightarrow> in_flight s = 0 \<Longrightarrow> pay_step pool amount s ev = s"
  by (cases ev) simp_all

lemma pay_run_stopped:
  "\<not> interval_on s \<Longrightarrow> in_flight s = 0 \<Longrightarrow> pay_run pool amount s evs = s"
  by (induction evs) (simp_all add: pay_run_def pay_step_stopped)

lemma one_tick:
  assumes "in_flight s = 0" and "interval_on s"
  shows "in_flight (pay_step pool amount (pay_step pool amount s TimerFires)
                     (StatusArrives st db)) = 0 \<and>
         (interval_on (pay_step pool amount (pay_step pool amount s TimerFires)
                        (StatusArrives st db)) \<and>
          user_balance (pay_step pool amount (pay_step pool amount s TimerFires)
                         (StatusArrives st db)) = user_balance s \<or>
          \<not> interval_on (pay_step pool amount (pay_step pool amount s TimerFires)
                          (StatusArrives st db)) \<and>
            (user_balance (pay_step pool amount (pay_step pool amount s TimerFires)
                            (StatusArrives st db)) = user_balance s \<or>
             user_balance (pay_step pool amount (pay_step pool amount s TimerFires)
                            (StatusArrives st db)) =
               Some ((case user_balance s of None \<Rightarrow> default_balance | Some b \<Rightarrow> b) + amount)))"
  using assms
  by (simp add: resume_def stop_check_def Let_def
           split: option.split invoice_status.split)

lemma credits_at_most_once_without_overlap:
  assumes "in_flight s = 0"
  shows "user_balance (pay_run pool amount s (one_at_a_time rs)) = user_balance s \<or>
         user_balance (pay_run pool amount s (one_at_a_time rs)) =
           Some ((case user_balance s of None \<Rightarrow> default_balance | Some b \<Rightarrow> b) + amount)"
  using assms
proof (induction rs arbitrary: s)
  case Nil
  then show ?case by (simp add: pay_run_def)
next
  case (Cons r rs)
  obtain st db where r: "r = (st, db)" by (cases r)
  let ?s' = "pay_step pool amount (pay_step pool amount s TimerFires) (StatusArrives st db)"
  have run: "pay_run pool amount s (one_at_a_time (r # rs)) =
             pay_run pool amount ?s' (one_at_a_time rs)"
    by (simp add: r pay_run_def)
  show ?case
  proof (cases "interval_on s")
    case False
    with Cons.prems show ?thesis by (simp add: pay_run_stopped)
  next
    case True
    from one_tick [OF Cons.prems True, of pool amount st db]
    have fl: "in_flight ?s' = 0"
      and alt: "interval_on ?s' \<and> user_balance ?s' = user_balance s \<or>
          \<not> interval_on ?s' \<and>
            (user_balance ?s' = user_balance s \<or>
             user_balance ?s' =
               Some ((case user_balance s of None \<Rightarrow> default_balance | Some b \<Rightarrow> b) + amount))"
      by simp_all
    from alt show ?thesis
    proof
      assume "interval_on ?s' \<and> user_balance ?s' = user_balance s"
      with Cons.IH [OF fl] run show ?thesis by simp
    next
      assume "\<not> interval_on ?s' \<and>
            (user_balance ?s' = user_balance s \<or>
             user_balance ?s' =
               Some ((case user_balance s of None \<Rightarrow> default_balance | Some b \<Rightarrow> b) + amount))"
      with fl run show ?thesis by (simp add: pay_run_stopped)
    qed
  qed
qed

text \<open>
  C4. With overlap the loop credits twice: the timer fires a second time while the first
  status request is still under way, the invoice is paid, and both callbacks read
  \<open>paid\<close>. Each clears the interval and each runs the \<open>UPDATE\<close>: a deposit of 25 on a
  balance of 10 leaves 60. Nothing records that the invoice has been credited.
\<close>

theorem overlapping_ticks_credit_twice:
  "user_balance
     (pay_run True 25 (startPaymentCheck (Some 10))
        [TimerFires, TimerFires, StatusArrives (Some Paid) DbOk, StatusArrives (Some Paid) DbOk])
   = Some 60 \<and>
   sent
     (pay_run True 25 (startPaymentCheck (Some 10))
        [TimerFires, TimerFires, StatusArrives (Some Paid) DbOk, StatusArrives (Some Paid) DbOk])
   = [DepositCredited 25 35, DepositCredited 25 60]"
  by (simp add: pay_run_def startPaymentCheck_def resume_def stop_check_def Let_def)


section \<open>The purchase handler (src/bot.js, the buy action; src/db.js, withTransaction)\<close>

subsection \<open>Tables\<close>

text \<open>
  A row of \<open>users\<close> and a row of \<open>user_proxies\<close>. Of the columns of \<open>user_proxies\<close>
  the model keeps the owner, the two identifiers, the order, the type, the login, the
  address and the country; the password, the ports, the dates, the constant status
  \<open>active\<close> and the timestamps are stored as received and decide nothing.
\<close>

record user_row =
  u_balance :: rat
  u_proxies_purchased :: nat

record proxy_row =
  r_telegram_id :: uid
  r_cm_id :: string
  r_proxy_id :: "int option"
  r_order_id :: "int option"
  r_type :: string
  r_login :: string
  r_ip :: string
  r_country :: string

record db =
  users :: "uid \<rightharpoonup> user_row"
  user_proxies :: "proxy_row list"
  cm_id_seq :: nat

text \<open>
  \<open>INSERT INTO user_proxies\<close> under the table's two constraints: \<open>cm_id TEXT UNIQUE\<close>
  (the table's declaration) and \<open>unique_proxy_id UNIQUE (proxy_id)\<close>
  (migrations/002_add_unique_proxy_id.sql). A \<open>NULL\<close> \<open>proxy_id\<close> violates nothing. A
  refused insert raises and leaves the table as it was; the constraint on \<open>cm_id\<close>, the
  older index, is tested first. The error's message is PostgreSQL's, without the quotes
  around the constraint's name. What a refused statement does to the transaction that
  issued it is in the transaction's state, below.
\<close>

datatype sql_error = DuplicateKey string

definition error_message :: "sql_error \<Rightarrow> string" where
  "error_message e =
     (case e of DuplicateKey c \<Rightarrow> ''duplicate key value violates unique constraint '' @ c)"

definition insert_user_proxy :: "proxy_row list \<Rightarrow> proxy_row \<Rightarrow> sql_error + proxy_row list" where
  "insert_user_proxy tbl row =
     (if \<exists>r \<in> set tbl. r_cm_id r = r_cm_id row
      then Inl (DuplicateKey ''user_proxies_cm_id_key'')
      else if r_proxy_id row \<noteq> None \<and> (\<exists>r \<in> set tbl. r_proxy_id r = r_proxy_id row)
      then Inl (DuplicateKey ''unique_proxy_id'')
      else Inr (tbl @ [row]))"

text \<open>The rows that reference a key, and the constraint as a property of a table.\<close>

definition rows_with_key :: "proxy_row list \<Rightarrow> int \<Rightarrow> proxy_row list" where
  "rows_with_key tbl k = filter (\<lambda>r. r_proxy_id r = Some k) tbl"

definition unique_proxy_id :: "proxy_row list \<Rightarrow> bool" where
  "unique_proxy_id tbl = distinct (List.map_filter r_proxy_id tbl)"

text \<open>Insert attempts of several flows on one table, in the order in which the storage
  layer takes them; a refused attempt changes nothing.\<close>

definition attempt_insert :: "proxy_row list \<Rightarrow> proxy_row \<Rightarrow> proxy_row list" where
  "attempt_insert tbl row = (case insert_user_proxy tbl row of Inl e \<Rightarrow> tbl | Inr tbl' \<Rightarrow> tbl')"

definition race :: "proxy_row list \<Rightarrow> proxy_row list \<Rightarrow> proxy_row list" where
  "race tbl rows = foldl attempt_insert tbl rows"

text \<open>\<open>s.includes(pat)\<close>\<close>

fun str_includes :: "string \<Rightarrow> string \<Rightarrow> bool" where
  "str_includes [] pat = (pat = [])"
| "str_includes (c # cs) pat = (take (length pat) (c # cs) = pat \<or> str_includes cs pat)"


subsection \<open>The collaborators\<close>

text \<open>
  What the handler receives from outside. An error thrown by the Proxy-Seller client is
  kept as whether its message matches \<open>/timeout|timed out|ECONNABORTED/i\<close>.
  \<open>calculatePrice\<close> returns \<open>finalUsd\<close> (a missing field is 0) or throws. \<open>buyProxy\<close>
  throws or returns a reply; \<open>None\<close> is a reply that is not
  \<open>{status: 'success', data}\<close>, otherwise the fields of \<open>data\<close> the handler reads:
  \<open>orderId\<close>, \<open>order_id\<close> (0 when missing), the numeric identifiers of \<open>proxy_id\<close>
  (an array, or a scalar that is not falsy), and the \<open>id\<close> of each entry of \<open>items\<close>
  and of \<open>proxies\<close> (0 when missing). \<open>getProxyCredentials\<close> catches its own errors and
  returns a list, empty on failure. A proxy record of the API has an \<open>id\<close> (\<open>None\<close>
  when missing) and an \<open>order_id\<close>; a missing string is empty.
\<close>

datatype ext_error = ExtTimeout | ExtFailure

record price_info =
  finalUsd :: rat
  finalPrice :: rat

record order_info =
  oi_orderId :: int
  oi_order_id :: int
  oi_proxy_id :: "int list"
  oi_items :: "int list"
  oi_proxies :: "int list"

record api_proxy =
  ap_id :: "int option"
  ap_order_id :: "int option"
  ap_login :: string
  ap_ip :: string
  ap_country :: string

text \<open>
  The environment of one run of the handler: whether the pool exists, the replies of the
  collaborators (those of \<open>getProxyCredentials\<close> by attempt number), and for the n-th
  call of \<open>generateCmId\<close> whether the query on the sequence throws (and the clock then)
  and the rows that other purchase flows insert between this flow's \<open>SELECT\<close> on the key
  and its \<open>INSERT\<close>.
\<close>

record env =
  e_pool :: bool
  e_price :: "ext_error + price_info"
  e_buy :: "ext_error + order_info option"
  e_credentials :: "nat \<Rightarrow> api_proxy list"
  e_cm_outage :: "nat \<Rightarrow> nat option"
  e_rivals :: "nat \<Rightarrow> proxy_row list"

text \<open>\<open>ctx.session.order\<close>; a missing or falsy field is the empty string or 0.\<close>

record order =
  o_type :: string
  o_country :: string
  o_periodDays :: int
  o_quantity :: int
  o_amount :: rat


subsection \<open>Errors, messages and effects\<close>

datatype claim_error = SqlError sql_error | PoolError db_error

datatype attempt_error = NoData | ClaimError claim_error

datatype purchase_error =
    PriceError ext_error
  | PriceNotCalculated
  | TopUpFirst
  | NotEnoughFunds rat rat
  | BuyFailed ext_error
  | CredentialsFailed attempt_error
  | NothingSaved
  | TransactionAborted
  | NoPool

datatype buy_msg =
    OrderLost
  | InvalidParams
  | CheckingBalance
  | FetchingProxies
  | PurchaseDone nat rat rat
  | TemporaryDelay
  | PurchaseFailed purchase_error

datatype event =
    EditMessage buy_msg
  | Begin
  | Commit
  | Rollback
  | CalculatePrice
  | Debit rat
  | BuyProxy
  | FetchCredentials nat
  | Wait

text \<open>
  The state inside the transaction: the \<open>users\<close> table, the rows of \<open>user_proxies\<close> that
  are not this transaction's (\<open>t_others\<close>), the rows it has inserted, which are
  \<open>savedProxies\<close> (\<open>t_saved\<close>), the sequence, the number of \<open>generateCmId\<close> calls so
  far, the effects so far, and whether a statement of the transaction has failed
  (\<open>t_aborted\<close>). The handler issues no \<open>SAVEPOINT\<close>, so after a failed statement
  PostgreSQL refuses every further statement on the transaction's client (\<open>current
  transaction is aborted, commands ignored until end of transaction block\<close>) until the
  \<open>ROLLBACK\<close>. \<open>generateCmId\<close> queries the pool, not the client, and is not refused.
\<close>

record tx =
  t_users :: "uid \<rightharpoonup> user_row"
  t_others :: "proxy_row list"
  t_saved :: "proxy_row list"
  t_seq :: nat
  t_calls :: nat
  t_log :: "event list"
  t_aborted :: bool

definition visible :: "tx \<Rightarrow> proxy_row list" where
  "visible s = t_others s @ t_saved s"

definition emit :: "event \<Rightarrow> tx \<Rightarrow> tx" where
  "emit ev s = s\<lparr>t_log := t_log s @ [ev]\<rparr>"


subsection \<open>Claiming one candidate\<close>

text \<open>Rows of other flows reach the table through the same \<open>INSERT\<close>; one that is
  refused is dropped.\<close>

fun rivals_insert :: "tx \<Rightarrow> proxy_row list \<Rightarrow> tx" where
  "rivals_insert s [] = s"
| "rivals_insert s (r # rs) =
     rivals_insert
       (case insert_user_proxy (visible s) r of
          Inl e \<Rightarrow> s
        | Inr tbl \<Rightarrow> s\<lparr>t_others := t_others s @ [r]\<rparr>) rs"

datatype claim_result = Saved | Skipped | Raised claim_error

text \<open>
  The body of \<open>for (const p of enrichedProxies)\<close> after the test on the quantity:
  a candidate without an identifier is skipped; the \<open>SELECT\<close> on the key throws when
  the transaction is aborted, and \<open>catch (checkErr)\<close> skips the candidate; a candidate
  whose key the \<open>SELECT\<close> finds is skipped, whoever owns it (both branches
  \<open>continue\<close>); then the identifier is generated, a candidate without login or address
  is skipped, and the row is inserted. A refused \<open>INSERT\<close> aborts the transaction; its
  duplicate-key error is swallowed (\<open>continue\<close>) when it names \<open>proxy_id\<close>, any other
  error is thrown on.
\<close>

definition claim_candidate ::
  "env \<Rightarrow> uid \<Rightarrow> int option \<Rightarrow> string \<Rightarrow> api_proxy \<Rightarrow> tx \<Rightarrow> claim_result \<times> tx" where
  "claim_candidate env userId orderId proxyType p s =
     (case ap_id p of
        None \<Rightarrow> (Skipped, s)
      | Some proxyId \<Rightarrow>
          if proxyId = 0 then (Skipped, s)
          else if t_aborted s then (Skipped, s)
          else if rows_with_key (visible s) proxyId \<noteq> [] then (Skipped, s)
          else
            (let (cm, seq') = generateCmId (e_pool env) (e_cm_outage env (t_calls s)) (t_seq s);
                 s1 = s\<lparr>t_seq := seq', t_calls := t_calls s + 1\<rparr>
             in case cm of
                  Inl e \<Rightarrow> (Raised (PoolError e), s1)
                | Inr cmId \<Rightarrow>
                    if ap_login p = [] \<or> ap_ip p = [] then (Skipped, s1)
                    else
                      (let s2 = rivals_insert s1 (e_rivals env (t_calls s));
                           row = \<lparr>r_telegram_id = userId, r_cm_id = cmId,
                                  r_proxy_id = Some proxyId,
                                  r_order_id = (case ap_order_id p of
                                                  Some i \<Rightarrow> Some i | None \<Rightarrow> orderId),
                                  r_type = proxyType, r_login = ap_login p, r_ip = ap_ip p,
                                  r_country = ap_country p\<rparr>
                       in case insert_user_proxy (visible s2) row of
                            Inl err \<Rightarrow>
                              if str_includes (error_message err) ''duplicate key'' \<and>
                                 str_includes (error_message err) ''proxy_id''
                              then (Skipped, s2\<lparr>t_aborted := True\<rparr>)
                              else (Raised (SqlError err), s2\<lparr>t_aborted := True\<rparr>)
                          | Inr tbl \<Rightarrow> (Saved, s2\<lparr>t_saved := t_saved s2 @ [row]\<rparr>))))"

text \<open>The \<open>for\<close> loop: it stops once \<open>savedProxies.length >= quantity\<close>, and an error
  thrown by a candidate leaves it.\<close>

fun claim_loop ::
  "env \<Rightarrow> uid \<Rightarrow> int option \<Rightarrow> string \<Rightarrow> int \<Rightarrow> api_proxy list \<Rightarrow> tx \<Rightarrow> claim_error option \<times> tx" where
  "claim_loop env userId orderId proxyType quantity [] s = (None, s)"
| "claim_loop env userId orderId proxyType quantity (p # ps) s =
     (if quantity \<le> int (length (t_saved s)) then (None, s)
      else case claim_candidate env userId orderId proxyType p s of
             (Raised e, s') \<Rightarrow> (Some e, s')
           | (Saved, s') \<Rightarrow> claim_loop env userId orderId proxyType quantity ps s'
           | (Skipped, s') \<Rightarrow> claim_loop env userId orderId proxyType quantity ps s')"


subsection \<open>The attempts\<close>

definition maxAttempts :: nat where
  "maxAttempts = 12"

text \<open>The three ways of choosing candidates, in the handler's order: by the bought
  identifiers, by the order, or the \<open>quantity\<close> records with the largest identifiers.\<close>

definition candidateProxies ::
  "int list \<Rightarrow> int option \<Rightarrow> int \<Rightarrow> api_proxy list \<Rightarrow> api_proxy list" where
  "candidateProxies boughtProxyIds orderId quantity proxiesFromAPI =
     (if boughtProxyIds \<noteq> []
      then filter (\<lambda>p. case ap_id p of None \<Rightarrow> False | Some i \<Rightarrow> i \<in> set boughtProxyIds)
             proxiesFromAPI
      else case orderId of
             Some oid \<Rightarrow> filter (\<lambda>p. ap_order_id p = Some oid) proxiesFromAPI
           | None \<Rightarrow>
               take (nat quantity)
                 (sort_key (\<lambda>p. - (case ap_id p of None \<Rightarrow> 0 | Some i \<Rightarrow> i)) proxiesFromAPI))"

definition enrich :: "order \<Rightarrow> api_proxy \<Rightarrow> api_proxy" where
  "enrich ord p = p\<lparr>ap_country := (if ap_country p \<noteq> [] then ap_country p else o_country ord)\<rparr>"

text \<open>One pass of the \<open>while\<close> body's \<open>try\<close> block, \<open>n\<close> being \<open>attempts\<close> after its
  increment. The result is the error thrown inside the block, if any.\<close>

definition attempt_once ::
  "env \<Rightarrow> uid \<Rightarrow> order \<Rightarrow> int option \<Rightarrow> int list \<Rightarrow> string \<Rightarrow> nat \<Rightarrow> tx \<Rightarrow> attempt_error option \<times> tx" where
  "attempt_once env userId ord orderId boughtProxyIds proxyType n s =
     (let s1 = emit (FetchCredentials n) s;
          proxiesFromAPI = e_credentials env n
      in if proxiesFromAPI = []
         then (if n < maxAttempts then (None, emit Wait s1) else (Some NoData, s1))
         else
           (let candidates = candidateProxies boughtProxyIds orderId (o_quantity ord) proxiesFromAPI
            in if candidates = [] \<and> n < maxAttempts then (None, emit Wait s1)
               else case claim_loop env userId orderId proxyType (o_quantity ord)
                           (map (enrich ord) candidates) s1 of
                      (Some e, s2) \<Rightarrow> (Some (ClaimError e), s2)
                    | (None, s2) \<Rightarrow> (None, s2)))"

text \<open>The \<open>while\<close> loop with its \<open>catch\<close>: an error on the last attempt is thrown on, an
  earlier one is followed by a wait and the next attempt.\<close>

function attempts_loop ::
  "env \<Rightarrow> uid \<Rightarrow> order \<Rightarrow> int option \<Rightarrow> int list \<Rightarrow> string \<Rightarrow> nat \<Rightarrow> tx \<Rightarrow> purchase_error option \<times> tx" where
  "attempts_loop env userId ord orderId boughtProxyIds proxyType attempts s =
     (if int (length (t_saved s)) < o_quantity ord \<and> attempts < maxAttempts
      then
        (let r = attempt_once env userId ord orderId boughtProxyIds proxyType (attempts + 1) s
         in case fst r of
              Some e \<Rightarrow>
                if maxAttempts \<le> attempts + 1 then (Some (CredentialsFailed e), snd r)
                else attempts_loop env userId ord orderId boughtProxyIds proxyType (attempts + 1)
                       (emit Wait (snd r))
            | None \<Rightarrow>
                attempts_loop env userId ord orderId boughtProxyIds proxyType (attempts + 1) (snd r))
      else (None, s))"
  by pat_completeness auto
termination
  by (relation "measure (\<lambda>(env, userId, ord, orderId, boughtProxyIds, proxyType, attempts, s).
                  maxAttempts - attempts)") auto

declare attempts_loop.simps [simp del]


subsection \<open>The transaction\<close>

text \<open>Step 1 of the callback: the session's amount, or a fresh quote when it is not
  positive (\<open>priceInfo.finalUsd || priceInfo.finalPrice || 0\<close>).\<close>

definition quote_price :: "env \<Rightarrow> order \<Rightarrow> tx \<Rightarrow> (purchase_error + rat) \<times> tx" where
  "quote_price env ord s =
     (let totalPrice = o_amount ord
      in if totalPrice \<le> 0
         then
           (let s1 = emit CalculatePrice s
            in case e_price env of
                 Inl e \<Rightarrow> (Inl (PriceError e), s1)
               | Inr priceInfo \<Rightarrow>
                   (let quoted = (if finalUsd priceInfo \<noteq> 0 then finalUsd priceInfo
                                  else if finalPrice priceInfo \<noteq> 0 then finalPrice priceInfo
                                  else 0)
                    in if quoted \<le> 0 then (Inl PriceNotCalculated, s1) else (Inr quoted, s1)))
         else (Inr totalPrice, s))"

text \<open>Steps 2 and 3: the locked read of the balance, the test, and the debit. A user
  without a row is inserted with balance 0 and the callback throws. In an aborted
  transaction the first statement throws.\<close>

definition debit :: "uid \<Rightarrow> rat \<Rightarrow> tx \<Rightarrow> (purchase_error + unit) \<times> tx" where
  "debit userId totalPrice s =
     (if t_aborted s then (Inl TransactionAborted, s)
      else case t_users s userId of
        None \<Rightarrow>
          (Inl TopUpFirst,
           s\<lparr>t_users := (t_users s)(userId \<mapsto> \<lparr>u_balance = 0, u_proxies_purchased = 0\<rparr>)\<rparr>)
      | Some row \<Rightarrow>
          if u_balance row < totalPrice
          then (Inl (NotEnoughFunds (u_balance row) totalPrice), s)
          else (Inr (),
                emit (Debit totalPrice)
                  (s\<lparr>t_users := (t_users s)(userId \<mapsto>
                         row\<lparr>u_balance := u_balance row - totalPrice\<rparr>)\<rparr>)))"

text \<open>Step 5: the order and the bought identifiers read from the reply.\<close>

definition reply_orderId :: "order_info option \<Rightarrow> int option" where
  "reply_orderId orderInfo =
     (case orderInfo of
        None \<Rightarrow> None
      | Some i \<Rightarrow> if oi_orderId i \<noteq> 0 then Some (oi_orderId i)
                  else if oi_order_id i \<noteq> 0 then Some (oi_order_id i)
                  else None)"

definition reply_boughtProxyIds :: "order_info option \<Rightarrow> int list" where
  "reply_boughtProxyIds orderInfo =
     (case orderInfo of
        None \<Rightarrow> []
      | Some i \<Rightarrow> oi_proxy_id i @ filter (\<lambda>x. x \<noteq> 0) (oi_items i)
                               @ filter (\<lambda>x. x \<noteq> 0) (oi_proxies i))"

text \<open>Steps 7 and 8: the counter of purchased proxies and the final balance. In an
  aborted transaction the \<open>UPDATE\<close> throws.\<close>

definition settle ::
  "uid \<Rightarrow> rat \<Rightarrow> tx \<Rightarrow> (purchase_error + proxy_row list \<times> rat \<times> rat) \<times> tx" where
  "settle userId totalPrice s =
     (if t_aborted s then (Inl TransactionAborted, s)
      else
        (let us = (case t_users s userId of
                     None \<Rightarrow> t_users s
                   | Some row \<Rightarrow>
                       (t_users s)(userId \<mapsto>
                          row\<lparr>u_proxies_purchased := u_proxies_purchased row + length (t_saved s)\<rparr>));
             finalBalance = (case us userId of None \<Rightarrow> 0 | Some row \<Rightarrow> u_balance row)
         in (Inr (t_saved s, totalPrice, finalBalance), s\<lparr>t_users := us\<rparr>)))"

text \<open>The callback passed to \<open>withTransaction\<close>.\<close>

definition purchase ::
  "env \<Rightarrow> uid \<Rightarrow> order \<Rightarrow> tx \<Rightarrow> (purchase_error + proxy_row list \<times> rat \<times> rat) \<times> tx" where
  "purchase env userId ord s =
     (case quote_price env ord s of
        (Inl e, s1) \<Rightarrow> (Inl e, s1)
      | (Inr totalPrice, s1) \<Rightarrow>
          (case debit userId totalPrice s1 of
             (Inl e, s2) \<Rightarrow> (Inl e, s2)
           | (Inr u, s2) \<Rightarrow>
               (let s3 = emit BuyProxy s2
                in case e_buy env of
                     Inl buyErr \<Rightarrow> (Inl (BuyFailed buyErr), s3)
                   | Inr orderInfo \<Rightarrow>
                       (let orderId = reply_orderId orderInfo;
                            boughtProxyIds = reply_boughtProxyIds orderInfo;
                            proxyType = (if o_type ord = ''private_ipv6'' then ''ipv6'' else ''ipv4'');
                            s4 = emit (EditMessage FetchingProxies) s3
                        in case attempts_loop env userId ord orderId boughtProxyIds proxyType 0 s4 of
                             (Some e, s5) \<Rightarrow> (Inl e, s5)
                           | (None, s5) \<Rightarrow>
                               if t_saved s5 = [] then (Inl NothingSaved, s5)
                               else settle userId totalPrice s5))))"

text \<open>
  \<open>withTransaction\<close>: without a pool it throws at once; otherwise \<open>BEGIN\<close>, the callback,
  and \<open>COMMIT\<close> or, on an error, \<open>ROLLBACK\<close> and the error again. The rollback restores
  \<open>users\<close> and drops the rows this transaction inserted; the rows of the other flows
  and the sequence (\<open>generateCmId\<close> queries the pool, not the transaction's client, and
  \<open>nextval\<close> is never rolled back) stay. \<open>COMMIT\<close> in an aborted transaction raises
  nothing and rolls back.
\<close>

definition begin_tx :: "db \<Rightarrow> event list \<Rightarrow> tx" where
  "begin_tx d evs =
     \<lparr>t_users = users d, t_others = user_proxies d, t_saved = [], t_seq = cm_id_seq d,
      t_calls = 0, t_log = evs @ [Begin], t_aborted = False\<rparr>"

definition withTransaction ::
  "bool \<Rightarrow> (tx \<Rightarrow> (purchase_error + 'a) \<times> tx) \<Rightarrow> db \<Rightarrow> event list
     \<Rightarrow> (purchase_error + 'a) \<times> db \<times> event list" where
  "withTransaction pool callback d evs =
     (if \<not> pool then (Inl NoPool, d, evs)
      else case callback (begin_tx d evs) of
             (Inr result, s) \<Rightarrow>
               (Inr result,
                (if t_aborted s
                 then \<lparr>users = users d, user_proxies = t_others s, cm_id_seq = t_seq s\<rparr>
                 else \<lparr>users = t_users s, user_proxies = visible s, cm_id_seq = t_seq s\<rparr>),
                t_log s @ [Commit])
           | (Inl err, s) \<Rightarrow>
               (Inl err,
                \<lparr>users = users d, user_proxies = t_others s, cm_id_seq = t_seq s\<rparr>,
                t_log s @ [Rollback]))"

text \<open>The handler's first test on the order.\<close>

definition invalid_order :: "order \<Rightarrow> bool" where
  "invalid_order ord =
     (o_type ord = [] \<or> o_country ord = [] \<or> o_periodDays ord = 0 \<or> o_quantity ord = 0 \<or>
      o_quantity ord \<le> 0 \<or> o_quantity ord > 100)"

text \<open>\<open>/timeout|timed out|ECONNABORTED/i.test(err.message)\<close>: the handler's own
  messages do not match; a message that quotes a collaborator's error matches when that
  error does.\<close>

fun isTimeout :: "purchase_error \<Rightarrow> bool" where
  "isTimeout (PriceError e) = (e = ExtTimeout)"
| "isTimeout (BuyFailed e) = (e = ExtTimeout)"
| "isTimeout _ = False"

text \<open>
  The handler of the \<open>buy_...\<close> action. The result is \<open>ctx.session.order\<close> afterwards,
  the database afterwards, and the effects in order. The calls to Telegram
  (\<open>editMessageText\<close>) and \<open>getCountryName\<close> are taken to return; of the SQL statements
  only the \<open>INSERT\<close> into \<open>user_proxies\<close> fails of itself, on its constraints, and
  after it every statement of the same transaction.
\<close>

definition buy_action :: "env \<Rightarrow> uid \<Rightarrow> order option \<Rightarrow> db \<Rightarrow> order option \<times> db \<times> event list" where
  "buy_action env userId session_order d =
     (case session_order of
        None \<Rightarrow> (None, d, [EditMessage OrderLost])
      | Some ord \<Rightarrow>
          if invalid_order ord then (Some ord, d, [EditMessage InvalidParams])
          else
            (case withTransaction (e_pool env) (purchase env userId ord) d
                    [EditMessage CheckingBalance] of
               (Inr (savedProxies, totalPrice, finalBalance), d', evs) \<Rightarrow>
                 (None, d',
                  evs @ [EditMessage (PurchaseDone (length savedProxies) totalPrice finalBalance)])
             | (Inl err, d', evs) \<Rightarrow>
                 (Some ord, d',
                  evs @ [EditMessage (if isTimeout err then TemporaryDelay
                                      else PurchaseFailed err)])))"


subsection \<open>Observations and scenarios\<close>

text \<open>\<open>SELECT balance FROM users WHERE telegram_id = userId\<close>\<close>

definition db_balance :: "db \<Rightarrow> uid \<Rightarrow> rat option" where
  "db_balance d u = (case users d u of None \<Rightarrow> None | Some row \<Rightarrow> Some (u_balance row))"

text \<open>
  A lost race on key \<open>k\<close>: this flow's \<open>SELECT\<close> runs (the transaction is not
  aborted) and finds no row for the key, and by the time of its \<open>INSERT\<close> another flow
  has inserted one (\<open>s2\<close> is the state at the \<open>INSERT\<close>); the candidate has a login
  and an address and the generated identifier is new, so that nothing else stops the
  insert.
\<close>

definition lost_race :: "env \<Rightarrow> api_proxy \<Rightarrow> int \<Rightarrow> tx \<Rightarrow> tx \<Rightarrow> bool" where
  "lost_race env p k s s2 =
     (ap_id p = Some k \<and> k \<noteq> 0 \<and> ap_login p \<noteq> [] \<and> ap_ip p \<noteq> [] \<and>
      \<not> t_aborted s \<and> rows_with_key (visible s) k = [] \<and>
      (case generateCmId (e_pool env) (e_cm_outage env (t_calls s)) (t_seq s) of
         (Inl e, seq') \<Rightarrow> False
       | (Inr cm, seq') \<Rightarrow>
           s2 = rivals_insert (s\<lparr>t_seq := seq', t_calls := t_calls s + 1\<rparr>)
                  (e_rivals env (t_calls s)) \<and>
           rows_with_key (visible s2) k \<noteq> [] \<and>
           list_all (\<lambda>r. r_cm_id r \<noteq> cm) (visible s2)))"

text \<open>
  Concrete runs: a user 1 with a balance of 50 and no proxies orders one proxy quoted
  at 30. In \<open>quiet\<close> the order is placed and the API never lists a proxy; in
  \<open>order_fails\<close> the order call throws; in \<open>contested\<close> the API lists proxies 5 and 6
  of the order and a rival flow of user 2 inserts key 5 between this flow's \<open>SELECT\<close>
  and \<open>INSERT\<close>. In \<open>contested_pair\<close> the user orders two proxies (\<open>two_proxies\<close>),
  the API lists 6 before 5, and the rival's insert of key 5 comes after this flow has
  saved proxy 6.
\<close>

definition shop :: db where
  "shop = \<lparr>users = [1 \<mapsto> \<lparr>u_balance = 50, u_proxies_purchased = 0\<rparr>], user_proxies = [],
           cm_id_seq = 1\<rparr>"

definition one_proxy :: order where
  "one_proxy = \<lparr>o_type = ''private_ipv4'', o_country = ''DEU'', o_periodDays = 30,
                o_quantity = 1, o_amount = 30\<rparr>"

definition order_77 :: order_info where
  "order_77 = \<lparr>oi_orderId = 77, oi_order_id = 0, oi_proxy_id = [], oi_items = [], oi_proxies = []\<rparr>"

definition quiet :: env where
  "quiet = \<lparr>e_pool = True, e_price = Inr \<lparr>finalUsd = 30, finalPrice = 0\<rparr>,
            e_buy = Inr (Some order_77), e_credentials = (\<lambda>n. []),
            e_cm_outage = (\<lambda>n. None), e_rivals = (\<lambda>n. [])\<rparr>"

definition order_fails :: env where
  "order_fails = quiet\<lparr>e_buy := Inl ExtFailure\<rparr>"

definition proxy_5 :: api_proxy where
  "proxy_5 = \<lparr>ap_id = Some 5, ap_order_id = Some 77, ap_login = ''u5'', ap_ip = ''10.0.0.5'',
              ap_country = []\<rparr>"

definition proxy_6 :: api_proxy where
  "proxy_6 = \<lparr>ap_id = Some 6, ap_order_id = Some 77, ap_login = ''u6'', ap_ip = ''10.0.0.6'',
              ap_country = []\<rparr>"

definition rival_row :: proxy_row where
  "rival_row = \<lparr>r_telegram_id = 2, r_cm_id = ''CM000900'', r_proxy_id = Some 5,
                r_order_id = Some 77, r_type = ''ipv4'', r_login = ''u5'', r_ip = ''10.0.0.5'',
                r_country = ''DEU''\<rparr>"

definition contested :: env where
  "contested = quiet\<lparr>e_credentials := (\<lambda>n. [proxy_5, proxy_6]),
                     e_rivals := (\<lambda>n. if n = 0 then [rival_row] else [])\<rparr>"

definition two_proxies :: order where
  "two_proxies = one_proxy\<lparr>o_quantity := 2\<rparr>"

definition contested_pair :: env where
  "contested_pair = quiet\<lparr>e_credentials := (\<lambda>n. [proxy_6, proxy_5]),
                          e_rivals := (\<lambda>n. if n = 1 then [rival_row] else [])\<rparr>"


subsection \<open>The constraint on \<open>proxy_id\<close> through the handler\<close>

lemma keys_append: "List.map_filter f (xs @ ys) = List.map_filter f xs @ List.map_filter f ys"
  by (simp add: List.map_filter_def)

lemma set_keys: "set (List.map_filter r_proxy_id tbl) = {k. \<exists>r \<in> set tbl. r_proxy_id r = Some k}"
  by (induction tbl) (auto simp: List.map_filter_simps split: option.splits)

lemma unique_proxy_id_snoc:
  "unique_proxy_id (tbl @ [row]) \<longleftrightarrow>
     unique_proxy_id tbl \<and> (r_proxy_id row = None \<or> (\<forall>r \<in> set tbl. r_proxy_id r \<noteq> r_proxy_id row))"
  by (cases "r_proxy_id row")
     (auto simp: unique_proxy_id_def keys_append set_keys List.map_filter_simps)

lemma unique_proxy_id_mid:
  "unique_proxy_id (a @ [row] @ b) \<longleftrightarrow> unique_proxy_id ((a @ b) @ [row])"
  by (cases "r_proxy_id row")
     (auto simp: unique_proxy_id_def keys_append set_keys List.map_filter_simps)

lemma unique_proxy_id_prefix: "unique_proxy_id (a @ b) \<Longrightarrow> unique_proxy_id a"
  by (simp add: unique_proxy_id_def keys_append)

lemma insert_user_proxy_unique:
  assumes "unique_proxy_id tbl" and "insert_user_proxy tbl row = Inr tbl'"
  shows "tbl' = tbl @ [row] \<and> unique_proxy_id tbl'"
  using assms
  by (auto simp: insert_user_proxy_def unique_proxy_id_snoc split: if_splits)

lemma attempt_insert_unique: "unique_proxy_id tbl \<Longrightarrow> unique_proxy_id (attempt_insert tbl row)"
  by (auto simp: attempt_insert_def dest: insert_user_proxy_unique split: sum.splits)

lemma race_unique: "unique_proxy_id tbl \<Longrightarrow> unique_proxy_id (race tbl rows)"
  unfolding race_def
  by (induction rows arbitrary: tbl) (simp_all add: attempt_insert_unique)

lemma rows_with_key_unique: "unique_proxy_id tbl \<Longrightarrow> length (rows_with_key tbl k) \<le> 1"
proof (induction tbl rule: rev_induct)
  case Nil
  then show ?case by (simp add: rows_with_key_def)
next
  case (snoc row tbl)
  then have u: "unique_proxy_id tbl"
    and fresh: "r_proxy_id row = None \<or> (\<forall>r \<in> set tbl. r_proxy_id r \<noteq> r_proxy_id row)"
    by (simp_all add: unique_proxy_id_snoc)
  show ?case
  proof (cases "r_proxy_id row = Some k")
    case True
    with fresh have "rows_with_key tbl k = []"
      by (auto simp: rows_with_key_def filter_empty_conv)
    with True show ?thesis by (simp add: rows_with_key_def)
  next
    case False
    with snoc.IH [OF u] show ?thesis by (simp add: rows_with_key_def)
  qed
qed


lemma visible_emit: "visible (emit ev s) = visible s"
  by (simp add: visible_def emit_def)

lemma visible_aborted: "visible (s\<lparr>t_aborted := b\<rparr>) = visible s"
  by (simp add: visible_def)

lemma t_saved_emit: "t_saved (emit ev s) = t_saved s"
  by (simp add: emit_def)

lemma rivals_insert_saved: "t_saved (rivals_insert s rows) = t_saved s"
  by (induction rows arbitrary: s) (auto split: sum.splits)

lemma rivals_insert_unique:
  "unique_proxy_id (visible s) \<Longrightarrow> unique_proxy_id (visible (rivals_insert s rows))"
proof (induction rows arbitrary: s)
  case Nil
  then show ?case by simp
next
  case (Cons r rs)
  show ?case
  proof (cases "insert_user_proxy (visible s) r")
    case (Inl e)
    with Cons show ?thesis by simp
  next
    case (Inr tbl)
    with Cons.prems have "unique_proxy_id (visible s @ [r])"
      using insert_user_proxy_unique by blast
    then have "unique_proxy_id (visible (s\<lparr>t_others := t_others s @ [r]\<rparr>))"
      using unique_proxy_id_mid [of "t_others s" r "t_saved s"] by (simp add: visible_def)
    with Cons.IH Inr show ?thesis by simp
  qed
qed

lemma claim_candidate_unique:
  assumes "unique_proxy_id (visible s)"
  shows "unique_proxy_id (visible (snd (claim_candidate env userId orderId proxyType p s)))"
proof -
  have seq: "\<And>a b. visible (s\<lparr>t_seq := a, t_calls := b\<rparr>) = visible s"
    by (simp add: visible_def)
  have step: "\<And>a b rows. unique_proxy_id (visible (rivals_insert (s\<lparr>t_seq := a, t_calls := b\<rparr>) rows))"
    using assms by (simp add: rivals_insert_unique seq)
  have saved: "\<And>s2 row tbl. unique_proxy_id (visible s2) \<Longrightarrow>
        insert_user_proxy (visible s2) row = Inr tbl \<Longrightarrow>
        unique_proxy_id (visible (s2\<lparr>t_saved := t_saved s2 @ [row]\<rparr>))"
    using insert_user_proxy_unique by (fastforce simp: visible_def)
  show ?thesis
    using assms
    by (auto simp: claim_candidate_def Let_def seq step saved visible_aborted
             split: option.splits sum.splits prod.splits)
qed

lemma claim_loop_unique:
  "unique_proxy_id (visible s) \<Longrightarrow>
   unique_proxy_id (visible (snd (claim_loop env userId orderId proxyType quantity ps s)))"
proof (induction ps arbitrary: s)
  case Nil
  then show ?case by simp
next
  case (Cons p ps)
  from Cons.prems
  have "unique_proxy_id (visible (snd (claim_candidate env userId orderId proxyType p s)))"
    by (rule claim_candidate_unique)
  with Cons show ?case
    by (auto split: prod.splits claim_result.splits)
qed

lemma attempt_once_unique:
  assumes "unique_proxy_id (visible s)"
  shows "unique_proxy_id (visible (snd (attempt_once env userId ord orderId bought proxyType n s)))"
proof -
  let ?s1 = "emit (FetchCredentials n) s"
  let ?cl = "claim_loop env userId orderId proxyType (o_quantity ord)
               (map (enrich ord)
                  (candidateProxies bought orderId (o_quantity ord) (e_credentials env n))) ?s1"
  from assms have "unique_proxy_id (visible ?s1)" by (simp add: visible_emit)
  then have u: "unique_proxy_id (visible (snd ?cl))" by (rule claim_loop_unique)
  obtain r s2 where cl: "?cl = (r, s2)" by (cases ?cl)
  with u have "unique_proxy_id (visible s2)" by simp
  with assms cl show ?thesis
    by (auto simp: attempt_once_def Let_def visible_emit split: option.splits)
qed

lemma attempts_loop_unique:
  "unique_proxy_id (visible s) \<Longrightarrow>
   unique_proxy_id (visible (snd (attempts_loop env userId ord orderId bought proxyType attempts s)))"
proof (induction env userId ord orderId bought proxyType attempts s rule: attempts_loop.induct)
  case (1 env userId ord orderId bought proxyType attempts s)
  let ?r = "attempt_once env userId ord orderId bought proxyType (attempts + 1) s"
  have u: "unique_proxy_id (visible (snd ?r))"
    using "1.prems" by (rule attempt_once_unique)
  show ?case
  proof (cases "int (length (t_saved s)) < o_quantity ord \<and> attempts < maxAttempts")
    case False
    have "attempts_loop env userId ord orderId bought proxyType attempts s = (None, s)"
      by (subst attempts_loop.simps) (simp only: False if_False)
    with "1.prems" show ?thesis by simp
  next
    case True
    show ?thesis
    proof (cases "fst ?r")
      case None
      with True "1.IH"(1) [OF True refl None u] u show ?thesis
        by (simp add: attempts_loop.simps [of _ _ _ _ _ _ attempts s])
    next
      case (Some e)
      show ?thesis
      proof (cases "maxAttempts \<le> attempts + 1")
        case last: True
        with True Some u show ?thesis
          by (simp add: attempts_loop.simps [of _ _ _ _ _ _ attempts s])
      next
        case more: False
        from u have "unique_proxy_id (visible (emit Wait (snd ?r)))"
          by (simp add: visible_emit)
        with True Some more "1.IH"(2) [OF True refl Some more] show ?thesis
          by (simp add: attempts_loop.simps [of _ _ _ _ _ _ attempts s])
      qed
    qed
  qed
qed

lemma quote_price_visible: "visible (snd (quote_price env ord s)) = visible s"
  by (simp add: quote_price_def Let_def visible_emit split: sum.splits)

lemma debit_visible: "visible (snd (debit userId totalPrice s)) = visible s"
  by (simp add: debit_def visible_emit split: option.splits) (simp add: visible_def)

lemma settle_visible: "visible (snd (settle userId totalPrice s)) = visible s"
  by (simp add: settle_def Let_def visible_def)

lemma purchase_unique:
  assumes "unique_proxy_id (visible s)"
  shows "unique_proxy_id (visible (snd (purchase env userId ord s)))"
proof -
  obtain q s1 where q: "quote_price env ord s = (q, s1)" by (cases "quote_price env ord s")
  with assms quote_price_visible [of env ord s] have u1: "unique_proxy_id (visible s1)" by simp
  show ?thesis
  proof (cases q)
    case (Inl e)
    with q u1 show ?thesis by (simp add: purchase_def)
  next
    case (Inr totalPrice)
    obtain dr s2 where d: "debit userId totalPrice s1 = (dr, s2)"
      by (cases "debit userId totalPrice s1")
    with u1 debit_visible [of userId totalPrice s1] have u2: "unique_proxy_id (visible s2)" by simp
    show ?thesis
    proof (cases dr)
      case (Inl e)
      with q Inr d u2 show ?thesis by (simp add: purchase_def)
    next
      case dr: (Inr u)
      show ?thesis
      proof (cases "e_buy env")
        case (Inl buyErr)
        with q Inr d dr u2 show ?thesis by (simp add: purchase_def Let_def visible_emit)
      next
        case b: (Inr orderInfo)
        let ?s4 = "emit (EditMessage FetchingProxies) (emit BuyProxy s2)"
        let ?al = "attempts_loop env userId ord (reply_orderId orderInfo)
                     (reply_boughtProxyIds orderInfo)
                     (if o_type ord = ''private_ipv6'' then ''ipv6'' else ''ipv4'') 0 ?s4"
        from u2 have "unique_proxy_id (visible ?s4)" by (simp add: visible_emit)
        then have u5: "unique_proxy_id (visible (snd ?al))" by (rule attempts_loop_unique)
        obtain r s5 where al: "?al = (r, s5)" by (cases ?al)
        with u5 have "unique_proxy_id (visible s5)" by simp
        with settle_visible [of userId totalPrice s5]
        have "unique_proxy_id (visible (snd (settle userId totalPrice s5)))" by simp
        with q Inr d dr b al \<open>unique_proxy_id (visible s5)\<close> show ?thesis
          by (auto simp: purchase_def Let_def split: option.splits prod.splits)
      qed
    qed
  qed
qed

lemma buy_action_unique:
  assumes "unique_proxy_id (user_proxies d)"
  shows "unique_proxy_id (user_proxies (fst (snd (buy_action env userId session_order d))))"
proof (cases session_order)
  case None
  with assms show ?thesis by (simp add: buy_action_def)
next
  case (Some ord)
  let ?s0 = "begin_tx d [EditMessage CheckingBalance]"
  from assms have "unique_proxy_id (visible ?s0)" by (simp add: begin_tx_def visible_def)
  then have u: "unique_proxy_id (visible (snd (purchase env userId ord ?s0)))"
    by (rule purchase_unique)
  obtain r s where p: "purchase env userId ord ?s0 = (r, s)"
    by (cases "purchase env userId ord ?s0")
  with u have us: "unique_proxy_id (visible s)" by simp
  then have uo: "unique_proxy_id (t_others s)"
    unfolding visible_def by (rule unique_proxy_id_prefix)
  from assms us uo p Some show ?thesis
    by (simp add: buy_action_def withTransaction_def split: sum.splits prod.splits)
qed


subsection \<open>Races and skipped candidates\<close>

lemma proxy_id_duplicate_message:
  "str_includes (error_message (DuplicateKey ''unique_proxy_id'')) ''duplicate key'' \<and>
   str_includes (error_message (DuplicateKey ''unique_proxy_id'')) ''proxy_id''"
  by (simp add: error_message_def)

lemma cm_id_duplicate_message:
  "\<not> str_includes (error_message (DuplicateKey ''user_proxies_cm_id_key'')) ''proxy_id''"
  by (simp add: error_message_def)

lemma rows_with_key_empty: "rows_with_key tbl k = [] \<longleftrightarrow> (\<forall>r \<in> set tbl. r_proxy_id r \<noteq> Some k)"
  by (simp add: rows_with_key_def filter_empty_conv)

lemma attempt_insert_refused:
  "r_proxy_id row = Some k \<Longrightarrow> rows_with_key tbl k \<noteq> [] \<Longrightarrow> attempt_insert tbl row = tbl"
  by (auto simp: attempt_insert_def insert_user_proxy_def rows_with_key_empty)

lemma race_refused:
  "\<forall>r \<in> set rows. r_proxy_id r = Some k \<Longrightarrow> rows_with_key tbl k \<noteq> [] \<Longrightarrow> race tbl rows = tbl"
  unfolding race_def
  by (induction rows) (simp_all add: attempt_insert_refused)

lemma race_first_wins:
  assumes "rows_with_key tbl k = []"
    and "\<forall>r \<in> set tbl. r_cm_id r \<noteq> r_cm_id first"
    and "r_proxy_id first = Some k"
    and "\<forall>r \<in> set rest. r_proxy_id r = Some k"
  shows "race tbl (first # rest) = tbl @ [first]"
proof -
  from assms(1-3) have "attempt_insert tbl first = tbl @ [first]"
    by (auto simp: attempt_insert_def insert_user_proxy_def rows_with_key_empty)
  moreover from assms(3) have "rows_with_key (tbl @ [first]) k \<noteq> []"
    by (simp add: rows_with_key_def)
  ultimately show ?thesis
    using race_refused [OF assms(4), of "tbl @ [first]"] by (simp add: race_def)
qed

lemma claim_candidate_lost_race:
  assumes "lost_race env p k s s2"
  shows "claim_candidate env userId orderId proxyType p s = (Skipped, s2\<lparr>t_aborted := True\<rparr>)"
proof -
  obtain cm seq' where g: "generateCmId (e_pool env) (e_cm_outage env (t_calls s)) (t_seq s) = (Inr cm, seq')"
    using assms by (auto simp: lost_race_def split: prod.splits sum.splits)
  with assms have s2: "s2 = rivals_insert (s\<lparr>t_seq := seq', t_calls := t_calls s + 1\<rparr>)
                  (e_rivals env (t_calls s))"
    and taken: "rows_with_key (visible s2) k \<noteq> []"
    and fresh: "\<forall>r \<in> set (visible s2). r_cm_id r \<noteq> cm"
    by (auto simp: lost_race_def list_all_iff)
  let ?row = "\<lparr>r_telegram_id = userId, r_cm_id = cm, r_proxy_id = Some k,
                r_order_id = (case ap_order_id p of Some i \<Rightarrow> Some i | None \<Rightarrow> orderId),
                r_type = proxyType, r_login = ap_login p, r_ip = ap_ip p,
                r_country = ap_country p\<rparr>"
  from taken fresh have ins: "insert_user_proxy (visible s2) ?row = Inl (DuplicateKey ''unique_proxy_id'')"
    by (auto simp: insert_user_proxy_def rows_with_key_empty)
  from assms have pre: "ap_id p = Some k" "k \<noteq> 0" "ap_login p \<noteq> []" "ap_ip p \<noteq> []"
      "\<not> t_aborted s" "rows_with_key (visible s) k = []"
    by (simp_all add: lost_race_def)
  show ?thesis
    using pre g ins proxy_id_duplicate_message unfolding s2
    by (simp add: claim_candidate_def Let_def)
qed

lemma claim_candidate_owned:
  assumes "ap_id p = Some k" and "rows_with_key (visible s) k \<noteq> []"
  shows "claim_candidate env userId orderId proxyType p s = (Skipped, s)"
  using assms by (simp add: claim_candidate_def)

text \<open>In an aborted transaction no candidate is claimed, and the callback cannot return.\<close>

lemma claim_candidate_aborted:
  assumes "t_aborted s"
  shows "claim_candidate env userId orderId proxyType p s = (Skipped, s)"
  using assms by (simp add: claim_candidate_def split: option.splits)

lemma claim_loop_aborted:
  assumes "t_aborted s"
  shows "claim_loop env userId orderId proxyType quantity ps s = (None, s)"
  using assms by (induction ps) (simp_all add: claim_candidate_aborted)

lemma purchase_aborted:
  assumes "purchase env userId ord s0 = (r, s)" and "t_aborted s"
  shows "isl r"
  using assms
  by (auto simp: purchase_def Let_def settle_def split: prod.splits sum.splits option.splits if_splits)

lemma claim_loop_skip:
  assumes "claim_candidate env userId orderId proxyType p s = (Skipped, s')"
    and "int (length (t_saved s)) < quantity"
  shows "claim_loop env userId orderId proxyType quantity (p # ps) s =
         claim_loop env userId orderId proxyType quantity ps s'"
  using assms by simp

lemma claim_loop_full:
  "quantity \<le> int (length (t_saved s)) \<Longrightarrow>
   claim_loop env userId orderId proxyType quantity ps s = (None, s)"
  by (cases ps) simp_all

lemma claim_candidate_saved:
  assumes "claim_candidate env userId orderId proxyType p s = (Saved, s')"
  shows "\<exists>k row. ap_id p = Some k \<and> row \<in> set (t_saved s') \<and> r_proxy_id row = Some k \<and>
           r_telegram_id row = userId"
  using assms
  by (auto simp: claim_candidate_def Let_def split: option.splits if_splits prod.splits sum.splits)


subsection \<open>The handler's guarantees\<close>

text \<open>
  C9. An order in the session whose quantity is zero or less or above 100, or whose
  type, country or period is missing, is answered with the invalid-parameters message
  and nothing else: that message is the handler's only effect (no transaction is begun,
  no price is calculated, nothing is debited, no order is placed, no credentials are
  fetched), and the database and the session's order are left as they were.
\<close>

theorem invalid_order_rejected_first:
  assumes "o_quantity ord \<le> 0 \<or> 100 < o_quantity ord \<or> o_type ord = [] \<or> o_country ord = [] \<or>
           o_periodDays ord = 0"
  shows "buy_action env userId (Some ord) d = (Some ord, d, [EditMessage InvalidParams])"
proof -
  from assms have "invalid_order ord" by (auto simp: invalid_order_def)
  then show ?thesis by (simp add: buy_action_def)
qed

theorem invalid_order_rejected_first_witness:
  "buy_action quiet 1 (Some (one_proxy\<lparr>o_quantity := 101\<rparr>)) shop =
     (Some (one_proxy\<lparr>o_quantity := 101\<rparr>), shop, [EditMessage InvalidParams])"
  by (rule invalid_order_rejected_first) simp

text \<open>The bound is 100 itself: an order for 100 proxies passes the test and reaches the
  transaction.\<close>

lemma quantity_100_accepted:
  "buy_action order_fails 1 (Some (one_proxy\<lparr>o_quantity := 100\<rparr>)) shop =
     (Some (one_proxy\<lparr>o_quantity := 100\<rparr>), shop,
      [EditMessage CheckingBalance, Begin, Debit 30, BuyProxy, Rollback,
       EditMessage (PurchaseFailed (BuyFailed ExtFailure))])"
  by (simp add: buy_action_def invalid_order_def one_proxy_def order_fails_def quiet_def shop_def
        withTransaction_def begin_tx_def purchase_def quote_price_def debit_def emit_def Let_def)

text \<open>
  C8. A candidate whose key is already in a row of the same user is skipped: the
  claim returns without an error and leaves the transaction's state as it was (no row
  is inserted, no identifier is generated), and the loop goes on with the next
  candidate. In particular, after a claim that saved a candidate, claiming the same
  candidate again changes nothing.
\<close>

theorem claim_of_owned_key_is_noop:
  "(ap_id p = Some k \<and> row \<in> set (visible s) \<and> r_proxy_id row = Some k \<and>
    r_telegram_id row = userId \<longrightarrow>
      claim_candidate env userId orderId proxyType p s = (Skipped, s) \<and>
      claim_loop env userId orderId proxyType quantity (p # ps) s =
        claim_loop env userId orderId proxyType quantity ps s) \<and>
   (claim_candidate env userId orderId proxyType p s0 = (Saved, s1) \<longrightarrow>
      claim_candidate env userId orderId proxyType p s1 = (Skipped, s1) \<and>
      claim_loop env userId orderId proxyType quantity (p # ps) s1 =
        claim_loop env userId orderId proxyType quantity ps s1)"
proof -
  have owned: "claim_candidate env userId orderId proxyType p s = (Skipped, s) \<and>
      claim_loop env userId orderId proxyType quantity (p # ps) s =
        claim_loop env userId orderId proxyType quantity ps s"
    if "ap_id p = Some k" and "row \<in> set (visible s)" and "r_proxy_id row = Some k"
    for s k row
  proof -
    from that(2,3) have "rows_with_key (visible s) k \<noteq> []"
      by (auto simp: rows_with_key_empty)
    with that(1) have skip: "claim_candidate env userId orderId proxyType p s = (Skipped, s)"
      by (rule claim_candidate_owned)
    show ?thesis
    proof (cases "quantity \<le> int (length (t_saved s))")
      case True
      then show ?thesis using skip by (simp add: claim_loop_full)
    next
      case False
      then show ?thesis using skip by simp
    qed
  qed
  have again: "claim_candidate env userId orderId proxyType p s1 = (Skipped, s1) \<and>
      claim_loop env userId orderId proxyType quantity (p # ps) s1 =
        claim_loop env userId orderId proxyType quantity ps s1"
    if "claim_candidate env userId orderId proxyType p s0 = (Saved, s1)"
  proof -
    from claim_candidate_saved [OF that] obtain k row
      where "ap_id p = Some k" "row \<in> set (t_saved s1)" "r_proxy_id row = Some k" by blast
    then show ?thesis using owned [of k row s1] by (simp add: visible_def)
  qed
  from owned again show ?thesis by blast
qed

theorem claim_of_owned_key_is_noop_witness:
  "fst (claim_candidate quiet 1 (Some 77) ''ipv4'' proxy_5 (begin_tx shop [])) = Saved \<and>
   claim_candidate quiet 1 (Some 77) ''ipv4'' proxy_5
     (snd (claim_candidate quiet 1 (Some 77) ''ipv4'' proxy_5 (begin_tx shop [])))
   = (Skipped, snd (claim_candidate quiet 1 (Some 77) ''ipv4'' proxy_5 (begin_tx shop [])))"
proof -
  let ?first = "claim_candidate quiet 1 (Some 77) ''ipv4'' proxy_5 (begin_tx shop [])"
  have saved: "fst ?first = Saved" by code_simp
  then have "?first = (Saved, snd ?first)" by (metis prod.collapse)
  with claim_of_owned_key_is_noop [of proxy_5 _ _ _ 1 quiet "Some 77" "''ipv4''" _ _
         "begin_tx shop []" "snd ?first"] saved
  show ?thesis by blast
qed






text \<open>
  The constraint itself holds. If the table satisfies the constraint on \<open>proxy_id\<close>,
  then after the handler has run, whatever the collaborators reply and whatever rows
  rival flows insert meanwhile, at most one row references any key; the same holds after
  any sequence of insert attempts of any flows; and of the attempts of several flows on
  one key that is not yet in the table, the first the storage layer takes is stored and
  all others are refused.
\<close>

lemma proxy_id_at_most_one_row:
  assumes "unique_proxy_id (user_proxies d)"
  shows "length (rows_with_key
                   (user_proxies (fst (snd (buy_action env userId session_order d)))) k) \<le> 1"
    and "length (rows_with_key (race (user_proxies d) rows) k) \<le> 1"
proof -
  show "length (rows_with_key
                  (user_proxies (fst (snd (buy_action env userId session_order d)))) k) \<le> 1"
    using assms by (intro rows_with_key_unique buy_action_unique)
  show "length (rows_with_key (race (user_proxies d) rows) k) \<le> 1"
    using assms by (intro rows_with_key_unique race_unique)
qed

lemma first_insert_is_stored:
  assumes "rows_with_key tbl k = []" and "r_proxy_id first = Some k"
    and "\<forall>r \<in> set rest. r_proxy_id r = Some k"
    and "\<forall>r \<in> set tbl. r_cm_id r \<noteq> r_cm_id first"
  shows "rows_with_key (race tbl (first # rest)) k = [first]"
proof -
  from assms have "race tbl (first # rest) = tbl @ [first]"
    by (intro race_first_wins)
  with assms(1,2) show ?thesis by (simp add: rows_with_key_def)
qed

text \<open>
  What the loser of a race does next is another matter. The losing \<open>INSERT\<close> is a failed
  statement of the purchase transaction, so the flow that swallows its error goes on in
  an aborted transaction: it skips the candidate, and every later candidate with it.
\<close>

lemma lost_race_skips_the_rest:
  assumes "lost_race env p k s s2"
  shows "claim_loop env userId orderId proxyType quantity (p # ps) s =
           (None, if quantity \<le> int (length (t_saved s)) then s else s2\<lparr>t_aborted := True\<rparr>)"
proof (cases "quantity \<le> int (length (t_saved s))")
  case True
  then show ?thesis by simp
next
  case False
  have "claim_candidate env userId orderId proxyType p s = (Skipped, s2\<lparr>t_aborted := True\<rparr>)"
    using assms by (rule claim_candidate_lost_race)
  with False show ?thesis by (simp add: claim_loop_aborted)
qed

lemma generateCmId_first: "generateCmId True None (Suc 0) = (Inr ''CM000001'', 2)"
proof -
  have "toString (Suc 0) = ''1''" by (simp add: toString_eval)
  moreover have "LPAD ''1'' 6 (CHR ''0'') = ''000001''" by code_simp
  ultimately show ?thesis by (simp add: generateCmId_def)
qed

lemma contested_lost_race: "lost_race contested proxy_5 5 (begin_tx shop [])
     (rivals_insert ((begin_tx shop [])\<lparr>t_seq := 2, t_calls := 1\<rparr>) [rival_row])"
  by (simp add: lost_race_def contested_def quiet_def proxy_5_def begin_tx_def shop_def
        visible_def rows_with_key_def generateCmId_first rival_row_def insert_user_proxy_def)

text \<open>
  C1. User 1, with a balance of 50, buys one proxy for 30; the API lists proxies 5 and 6
  of the order; a rival flow inserts key 5 between this flow's \<open>SELECT\<close> and its
  \<open>INSERT\<close>. One row references key 5, the rival's: the constraint holds and no
  duplicate is stored. But the losing attempt does not move on to a claim of the next
  candidate: the refused \<open>INSERT\<close> has aborted the transaction, so proxy 6, which nobody
  holds, is skipped too, on this attempt and on the eleven that follow; the callback then
  throws, the transaction is rolled back, and the user is shown an error. The order was
  placed and the purchase is lost.
\<close>

theorem lost_race_aborts_purchase:
  "fst (claim_candidate contested 1 (Some 77) ''ipv4'' proxy_5 (begin_tx shop [])) = Skipped \<and>
   t_aborted (snd (claim_candidate contested 1 (Some 77) ''ipv4'' proxy_5 (begin_tx shop []))) \<and>
   rows_with_key
     (visible (snd (claim_candidate contested 1 (Some 77) ''ipv4'' proxy_5 (begin_tx shop [])))) 5
     = [rival_row] \<and>
   rows_with_key
     (visible (snd (claim_candidate contested 1 (Some 77) ''ipv4'' proxy_5 (begin_tx shop [])))) 6
     = [] \<and>
   fst (claim_candidate contested 1 (Some 77) ''ipv4'' proxy_6
          (snd (claim_candidate contested 1 (Some 77) ''ipv4'' proxy_5 (begin_tx shop [])))) = Skipped \<and>
   t_saved (snd (claim_candidate contested 1 (Some 77) ''ipv4'' proxy_6
          (snd (claim_candidate contested 1 (Some 77) ''ipv4'' proxy_5 (begin_tx shop []))))) = [] \<and>
   fst (buy_action contested 1 (Some one_proxy) shop) = Some one_proxy \<and>
   db_balance (fst (snd (buy_action contested 1 (Some one_proxy) shop))) 1 = Some 50 \<and>
   user_proxies (fst (snd (buy_action contested 1 (Some one_proxy) shop))) = [rival_row] \<and>
   snd (snd (buy_action contested 1 (Some one_proxy) shop)) =
     [EditMessage CheckingBalance, Begin, Debit 30, BuyProxy, EditMessage FetchingProxies,
      FetchCredentials 1, FetchCredentials 2, FetchCredentials 3, FetchCredentials 4,
      FetchCredentials 5, FetchCredentials 6, FetchCredentials 7, FetchCredentials 8,
      FetchCredentials 9, FetchCredentials 10, FetchCredentials 11, FetchCredentials 12,
      Rollback, EditMessage (PurchaseFailed NothingSaved)]"
proof -
  let ?c5 = "claim_candidate contested 1 (Some 77) ''ipv4'' proxy_5 (begin_tx shop [])"
  let ?c6 = "claim_candidate contested 1 (Some 77) ''ipv4'' proxy_6 (snd ?c5)"
  let ?b = "buy_action contested 1 (Some one_proxy) shop"
  have "fst ?c5 = Skipped" by code_simp
  moreover have "t_aborted (snd ?c5)" by code_simp
  moreover have "rows_with_key (visible (snd ?c5)) 5 = [rival_row]" by code_simp
  moreover have "rows_with_key (visible (snd ?c5)) 6 = []" by code_simp
  moreover have "fst ?c6 = Skipped" by code_simp
  moreover have "t_saved (snd ?c6) = []" by code_simp
  moreover have "fst ?b = Some one_proxy" by code_simp
  moreover have "db_balance (fst (snd ?b)) 1 = Some 50" by code_simp
  moreover have "user_proxies (fst (snd ?b)) = [rival_row]" by code_simp
  moreover have "snd (snd ?b) =
     [EditMessage CheckingBalance, Begin, Debit 30, BuyProxy, EditMessage FetchingProxies,
      FetchCredentials 1, FetchCredentials 2, FetchCredentials 3, FetchCredentials 4,
      FetchCredentials 5, FetchCredentials 6, FetchCredentials 7, FetchCredentials 8,
      FetchCredentials 9, FetchCredentials 10, FetchCredentials 11, FetchCredentials 12,
      Rollback, EditMessage (PurchaseFailed NothingSaved)]" by code_simp
  ultimately show ?thesis by blast
qed

text \<open>A claim that was saved before the race is lost with it: of two proxies ordered,
  proxy 6 is saved, the race on proxy 5 is lost, and the \<open>UPDATE\<close> of the purchase
  counter throws in the aborted transaction; the rollback drops the row of proxy 6.\<close>

lemma saved_claim_lost_with_race:
  "fst (buy_action contested_pair 1 (Some two_proxies) shop) = Some two_proxies \<and>
   db_balance (fst (snd (buy_action contested_pair 1 (Some two_proxies) shop))) 1 = Some 50 \<and>
   user_proxies (fst (snd (buy_action contested_pair 1 (Some two_proxies) shop))) = [rival_row] \<and>
   last (snd (snd (buy_action contested_pair 1 (Some two_proxies) shop))) =
     EditMessage (PurchaseFailed TransactionAborted)"
proof -
  let ?b = "buy_action contested_pair 1 (Some two_proxies) shop"
  have "fst ?b = Some two_proxies" by code_simp
  moreover have "db_balance (fst (snd ?b)) 1 = Some 50" by code_simp
  moreover have "user_proxies (fst (snd ?b)) = [rival_row]" by code_simp
  moreover have "last (snd (snd ?b)) = EditMessage (PurchaseFailed TransactionAborted)" by code_simp
  ultimately show ?thesis by blast
qed

end
